theory Spec2Isabelle
  imports Main
begin

section \<open>Settings trees of openavmkit: values, objects and the store\<close>

text \<open>
  The functions of \<^verbatim>\<open>src/openavmkit/utilities/settings.py\<close> that merge a settings
  template with a local settings file and that replace \<^verbatim>\<open>$$\<close> variables work on the
  objects \<^verbatim>\<open>json.load\<close> returns: dicts (insertion ordered, string keys), lists,
  strings, integers, booleans and \<^verbatim>\<open>None\<close>. Dicts and lists are mutable and are
  passed by reference; the source updates them in place and stores one object under
  several parents. The embedding therefore keeps dicts and lists in an explicit store:
  a value is a scalar or the address of an object, the store is the list of all objects,
  and an address is an index into it. JSON floats are left out of the model.
\<close>

type_synonym addr = nat

datatype val = VNone | VBool bool | VInt int | VStr string | VRef addr

type_synonym pydict = "(string \<times> val) list"

datatype obj = ODict pydict | OList "val list"

type_synonym heap = "obj list"

datatype py_error =
    ValueError string
  | TypeError
  | KeyError
  | RecursionError

text \<open>The parsed JSON document, before it is placed in the store.\<close>

datatype node =
    Null
  | Boolean bool
  | Num int
  | Str string
  | Seq "node list"
  | Mapping "(string \<times> node) list"

subsection \<open>Python's dict operations on insertion-ordered association lists\<close>

definition dict_has :: "string \<Rightarrow> (string \<times> 'v) list \<Rightarrow> bool" where
  "dict_has k d = (map_of d k \<noteq> None)"

text \<open>\<^verbatim>\<open>d[k] = v\<close>: an existing key keeps its position, a new key goes to the end.\<close>

fun dict_set :: "string \<Rightarrow> 'v \<Rightarrow> (string \<times> 'v) list \<Rightarrow> (string \<times> 'v) list" where
  "dict_set k v [] = [(k, v)]"
| "dict_set k v (p # ps) = (if fst p = k then (k, v) # ps else p # dict_set k v ps)"

text \<open>
  \<^verbatim>\<open>del d[k]\<close>, used by the source only on keys that are present: the dict has the
  key no more.
\<close>

fun dict_del :: "string \<Rightarrow> (string \<times> 'v) list \<Rightarrow> (string \<times> 'v) list" where
  "dict_del k [] = []"
| "dict_del k (p # ps) = (if fst p = k then dict_del k ps else p # dict_del k ps)"

subsection \<open>The store\<close>

definition alloc :: "heap \<Rightarrow> obj \<Rightarrow> heap \<times> addr" where
  "alloc h ob = (h @ [ob], length h)"

definition get_obj :: "heap \<Rightarrow> addr \<Rightarrow> obj option" where
  "get_obj h a = (if a < length h then Some (h ! a) else None)"

definition get_dict :: "heap \<Rightarrow> val \<Rightarrow> pydict option" where
  "get_dict h v =
     (case v of
        VRef a \<Rightarrow> (case get_obj h a of Some (ODict d) \<Rightarrow> Some d | _ \<Rightarrow> None)
      | _ \<Rightarrow> None)"

definition get_list :: "heap \<Rightarrow> val \<Rightarrow> val list option" where
  "get_list h v =
     (case v of
        VRef a \<Rightarrow> (case get_obj h a of Some (OList xs) \<Rightarrow> Some xs | _ \<Rightarrow> None)
      | _ \<Rightarrow> None)"

text \<open>\<^verbatim>\<open>isinstance(v, dict)\<close> and \<^verbatim>\<open>isinstance(v, list)\<close>.\<close>

definition is_dict :: "heap \<Rightarrow> val \<Rightarrow> bool" where
  "is_dict h v = (get_dict h v \<noteq> None)"

definition is_list :: "heap \<Rightarrow> val \<Rightarrow> bool" where
  "is_list h v = (get_list h v \<noteq> None)"

text \<open>\<^verbatim>\<open>d[k] = v\<close> on the dict stored at an address.\<close>

definition set_item :: "heap \<Rightarrow> addr \<Rightarrow> string \<Rightarrow> val \<Rightarrow> heap" where
  "set_item h a k v =
     (case get_obj h a of
        Some (ODict d) \<Rightarrow> h[a := ODict (dict_set k v d)]
      | _ \<Rightarrow> h)"

text \<open>\<^verbatim>\<open>del d[k]\<close> on the dict stored at an address.\<close>

definition del_item :: "heap \<Rightarrow> addr \<Rightarrow> string \<Rightarrow> heap" where
  "del_item h a k =
     (case get_obj h a of
        Some (ODict d) \<Rightarrow> h[a := ODict (dict_del k d)]
      | _ \<Rightarrow> h)"

text \<open>\<^verbatim>\<open>xs[i] = v\<close> and \<^verbatim>\<open>xs.append(v)\<close> on the list stored at an address.\<close>

definition set_index :: "heap \<Rightarrow> addr \<Rightarrow> nat \<Rightarrow> val \<Rightarrow> heap" where
  "set_index h a i v =
     (case get_obj h a of
        Some (OList xs) \<Rightarrow> h[a := OList (xs[i := v])]
      | _ \<Rightarrow> h)"

definition append_item :: "heap \<Rightarrow> addr \<Rightarrow> val \<Rightarrow> heap" where
  "append_item h a v =
     (case get_obj h a of
        Some (OList xs) \<Rightarrow> h[a := OList (xs @ [v])]
      | _ \<Rightarrow> h)"

subsection \<open>Loading a parsed document into the store and reading it back\<close>

text \<open>
  \<^verbatim>\<open>json.load\<close> builds every dict and list as a fresh object, children before
  their parent; the members of a JSON object are stored one after the other with
  \<^verbatim>\<open>d[k] = v\<close>, so a repeated key keeps its first position and its last value.
\<close>

fun load :: "heap \<Rightarrow> node \<Rightarrow> heap \<times> val"
and load_list :: "heap \<Rightarrow> node list \<Rightarrow> heap \<times> val list"
and load_dict :: "heap \<Rightarrow> (string \<times> node) list \<Rightarrow> pydict \<Rightarrow> heap \<times> pydict"
where
  "load h Null = (h, VNone)"
| "load h (Boolean b) = (h, VBool b)"
| "load h (Num i) = (h, VInt i)"
| "load h (Str s) = (h, VStr s)"
| "load h (Seq ns) =
     (case load_list h ns of (h', vs) \<Rightarrow>
        (case alloc h' (OList vs) of (h'', a) \<Rightarrow> (h'', VRef a)))"
| "load h (Mapping kns) =
     (case load_dict h kns [] of (h', d) \<Rightarrow>
        (case alloc h' (ODict d) of (h'', a) \<Rightarrow> (h'', VRef a)))"
| "load_list h [] = (h, [])"
| "load_list h (n # ns) =
     (case load h n of (h', v) \<Rightarrow>
        (case load_list h' ns of (h'', vs) \<Rightarrow> (h'', v # vs)))"
| "load_dict h [] d = (h, d)"
| "load_dict h ((k, n) # kns) d =
     (case load h n of (h', v) \<Rightarrow> load_dict h' kns (dict_set k v d))"

text \<open>
  Reading a value of the store back as a document: a dict is read through its keys, in
  their order. The first argument bounds the nesting depth followed; \<open>None\<close> when the
  bound is reached or an address is dangling.
\<close>

fun read :: "nat \<Rightarrow> heap \<Rightarrow> val \<Rightarrow> node option"
and read_list :: "nat \<Rightarrow> heap \<Rightarrow> val list \<Rightarrow> node list option"
and read_dict :: "nat \<Rightarrow> heap \<Rightarrow> pydict \<Rightarrow> string list \<Rightarrow> (string \<times> node) list option"
where
  "read 0 h v = None"
| "read (Suc n) h v =
     (case v of
        VNone \<Rightarrow> Some Null
      | VBool b \<Rightarrow> Some (Boolean b)
      | VInt i \<Rightarrow> Some (Num i)
      | VStr s \<Rightarrow> Some (Str s)
      | VRef a \<Rightarrow>
          (case get_obj h a of
             None \<Rightarrow> None
           | Some (OList xs) \<Rightarrow> map_option Seq (read_list n h xs)
           | Some (ODict d) \<Rightarrow> map_option Mapping (read_dict n h d (map fst d))))"
| "read_list n h [] = Some []"
| "read_list n h (x # xs) =
     (case read n h x of
        None \<Rightarrow> None
      | Some y \<Rightarrow> map_option ((#) y) (read_list n h xs))"
| "read_dict n h d [] = Some []"
| "read_dict n h d (k # ks) =
     (case map_of d k of
        None \<Rightarrow> None
      | Some x \<Rightarrow>
          (case read n h x of
             None \<Rightarrow> None
           | Some y \<Rightarrow> map_option ((#) (k, y)) (read_dict n h d ks)))"

text \<open>
  The values that can be reached from a value of the store: the value itself, the
  entries of a dict that can be reached, the items of a list that can be reached.
\<close>

inductive_set reach :: "heap \<Rightarrow> val \<Rightarrow> val set" for h :: heap and v :: val where
  reach_self: "v \<in> reach h v"
| reach_entry: "x \<in> reach h v \<Longrightarrow> get_dict h x = Some d \<Longrightarrow> map_of d k = Some y \<Longrightarrow> y \<in> reach h v"
| reach_item: "x \<in> reach h v \<Longrightarrow> get_list h x = Some xs \<Longrightarrow> y \<in> set xs \<Longrightarrow> y \<in> reach h v"


section \<open>The merge of a local settings file over the template\<close>

subsection \<open>String helpers\<close>

text \<open>\<^verbatim>\<open>s.startswith(p)\<close>.\<close>

definition startswith :: "string \<Rightarrow> string \<Rightarrow> bool" where
  "startswith s p = (take (length p) s = p)"

text \<open>The two flags of \<^verbatim>\<open>_strip_flags\<close> and \<^verbatim>\<open>is_key_in\<close>.\<close>

definition flagged :: "string \<Rightarrow> bool" where
  "flagged k = (startswith k ''+'' \<or> startswith k ''!'')"

subsection \<open>Python equality of two values\<close>

text \<open>
  \<^verbatim>\<open>item not in entry_t\<close> compares with \<^verbatim>\<open>==\<close>, after an identity test:
  \<^verbatim>\<open>True == 1\<close> and \<^verbatim>\<open>False == 0\<close> hold, lists are equal when they have equal
  items in the same order, dicts when they have the same keys with equal values,
  whatever the insertion order; \<open>py_eq_dict\<close> goes through the keys of the first dict. The comparison of nested objects is recursive; the first
  argument bounds the nesting depth, and \<open>None\<close> stands for the interpreter's
  \<^verbatim>\<open>RecursionError\<close>.
\<close>

definition scalar_eq :: "val \<Rightarrow> val \<Rightarrow> bool" where
  "scalar_eq v w =
     (case v of
        VNone \<Rightarrow> w = VNone
      | VBool a \<Rightarrow> w = VBool a \<or> w = VInt (if a then 1 else 0)
      | VInt a \<Rightarrow> w = VInt a \<or> (a = 1 \<and> w = VBool True) \<or> (a = 0 \<and> w = VBool False)
      | VStr a \<Rightarrow> w = VStr a
      | VRef a \<Rightarrow> False)"

definition is_ref :: "val \<Rightarrow> bool" where
  "is_ref v = (case v of VRef a \<Rightarrow> True | _ \<Rightarrow> False)"

function py_eq :: "nat \<Rightarrow> heap \<Rightarrow> val \<Rightarrow> val \<Rightarrow> bool option"
and py_eq_list :: "nat \<Rightarrow> heap \<Rightarrow> val list \<Rightarrow> val list \<Rightarrow> bool option"
and py_eq_dict :: "nat \<Rightarrow> heap \<Rightarrow> pydict \<Rightarrow> pydict \<Rightarrow> string list \<Rightarrow> bool option"
where
  "py_eq 0 h v w = None"
| "py_eq (Suc n) h v w =
     (if \<not> (is_ref v \<and> is_ref w) then Some (scalar_eq v w)
      else if v = w then Some True
      else if get_list h v \<noteq> None \<and> get_list h w \<noteq> None then
        (if length (the (get_list h v)) = length (the (get_list h w))
         then py_eq_list n h (the (get_list h v)) (the (get_list h w))
         else Some False)
      else if get_dict h v \<noteq> None \<and> get_dict h w \<noteq> None then
        (if length (the (get_dict h v)) = length (the (get_dict h w))
         then py_eq_dict n h (the (get_dict h v)) (the (get_dict h w))
                (map fst (the (get_dict h v)))
         else Some False)
      else Some False)"
| "py_eq_list n h [] ys = Some True"
| "py_eq_list n h (x # xs) [] = Some False"
| "py_eq_list n h (x # xs) (y # ys) =
     (if py_eq n h x y = Some True then py_eq_list n h xs ys else py_eq n h x y)"
| "py_eq_dict n h d e [] = Some True"
| "py_eq_dict n h d e (k # ks) =
     (if map_of e k = None then Some False
      else if py_eq n h (the (map_of d k)) (the (map_of e k)) = Some True
      then py_eq_dict n h d e ks
      else py_eq n h (the (map_of d k)) (the (map_of e k)))"
  by pat_completeness auto
termination
  by (relation "inv_image (less_than <*lex*> less_than)
       (\<lambda>x. case x of Inl (n, h, v, w) \<Rightarrow> (n, 0)
       | Inr (Inl (n, h, xs, ys)) \<Rightarrow> (n, Suc (length xs))
       | Inr (Inr (n, h, d, e, ks)) \<Rightarrow> (n, Suc (length ks)))") auto

text \<open>\<^verbatim>\<open>item in xs\<close> for a list \<^verbatim>\<open>xs\<close>.\<close>

fun py_in :: "nat \<Rightarrow> heap \<Rightarrow> val \<Rightarrow> val list \<Rightarrow> bool option" where
  "py_in n h v [] = Some False"
| "py_in n h v (x # xs) =
     (if py_eq n h x v = Some False then py_in n h v xs else py_eq n h x v)"

subsection \<open>\<^verbatim>\<open>is_key_in\<close>\<close>

text \<open>
  The template key that stands for \<open>key\<close>: the first of \<^verbatim>\<open>"+" + key\<close>,
  \<^verbatim>\<open>"!" + key\<close> and \<open>key\<close> that the dict has, with the flag found.
\<close>

definition is_key_in :: "pydict \<Rightarrow> string \<Rightarrow> bool \<times> string" where
  "is_key_in object key =
     (if dict_has (''+'' @ key) object then (True, ''+'')
      else if dict_has (''!'' @ key) object then (True, ''!'')
      else if dict_has key object then (True, [])
      else (False, []))"

subsection \<open>\<^verbatim>\<open>_strip_flags\<close>\<close>

text \<open>
  \<^verbatim>\<open>_strip_flags(settings)\<close> renames in place the flagged keys of a dict and
  descends into the dicts and lists below it; it returns its argument, so the model
  returns the new store only. \<open>strip_items\<close> is the loop over the items of a list,
  \<open>strip_keys\<close> the loop over \<^verbatim>\<open>keys_in_settings\<close>, the keys the dict had when the
  call began; \<open>key0\<close> is the source's \<^verbatim>\<open>key_\<close>. A key that starts with one flag does not start with the other, so of the
  two rounds of \<^verbatim>\<open>for flag in flags\<close> at most one renames. A list loop stores back
  into \<^verbatim>\<open>settings[i]\<close> the reference it has just read, which leaves the list as it
  was. The first argument bounds the depth of nested calls; when it is used up the
  interpreter raises \<^verbatim>\<open>RecursionError\<close>.
\<close>

function strip_flags :: "nat \<Rightarrow> heap \<Rightarrow> val \<Rightarrow> py_error + heap"
and strip_items :: "nat \<Rightarrow> heap \<Rightarrow> val list \<Rightarrow> py_error + heap"
and strip_keys :: "nat \<Rightarrow> heap \<Rightarrow> addr \<Rightarrow> string list \<Rightarrow> py_error + heap"
where
  "strip_flags 0 h v = Inl RecursionError"
| "strip_flags (Suc n) h v =
     (if is_list h v then strip_items n h (the (get_list h v))
      else if is_dict h v then
        strip_keys n h (case v of VRef a \<Rightarrow> a | _ \<Rightarrow> 0) (map fst (the (get_dict h v)))
      else Inr h)"
| "strip_items n h [] = Inr h"
| "strip_items n h (item # items) =
     (if is_list h item \<or> is_dict h item then
        (case strip_flags n h item of
           Inl e \<Rightarrow> Inl e
         | Inr h' \<Rightarrow> strip_items n h' items)
      else strip_items n h items)"
| "strip_keys n h a [] = Inr h"
| "strip_keys n h a (key0 # keys) =
     (let settings = the (get_dict h (VRef a)) in
      if \<not> dict_has key0 settings then strip_keys n h a keys
      else
        let entry = the (map_of settings key0);
            key = (if flagged key0 then drop 1 key0 else key0);
            h1 = (if flagged key0 then del_item (set_item h a key entry) a key0 else h)
        in if is_dict h1 entry then
             (case strip_flags n h1 entry of
                Inl e \<Rightarrow> Inl e
              | Inr h2 \<Rightarrow> strip_keys n (set_item (set_item h2 a key entry) a key entry) a keys)
           else if is_list h1 entry then
             (case strip_items n h1 (the (get_list h1 entry)) of
                Inl e \<Rightarrow> Inl e
              | Inr h2 \<Rightarrow> strip_keys n (set_item h2 a key entry) a keys)
           else strip_keys n (set_item h1 a key entry) a keys)"
  by pat_completeness auto
termination
  by (relation "inv_image (less_than <*lex*> less_than <*lex*> less_than)
       (\<lambda>x. case x of Inl (n, h, v) \<Rightarrow> (n, 0, 0)
       | Inr (Inl (n, h, items)) \<Rightarrow> (n, 1, length items)
       | Inr (Inr (n, h, a, keys)) \<Rightarrow> (n, 2, length keys))") auto

subsection \<open>\<^verbatim>\<open>_merge_settings\<close>\<close>

text \<open>
  The loop \<^verbatim>\<open>for item in entry_l: if item not in entry_t: entry_t.append(item)\<close>;
  \<open>t\<close> is the address of \<^verbatim>\<open>entry_t\<close>, which grows while the loop runs.
\<close>

fun append_new :: "nat \<Rightarrow> heap \<Rightarrow> addr \<Rightarrow> val list \<Rightarrow> py_error + heap" where
  "append_new n h t [] = Inr h"
| "append_new n h t (item # items) =
     (case py_in n h item (the (get_list h (VRef t))) of
        None \<Rightarrow> Inl RecursionError
      | Some True \<Rightarrow> append_new n h t items
      | Some False \<Rightarrow> append_new n (append_item h t item) t items)"

text \<open>
  \<^verbatim>\<open>_merge_settings(template, local)\<close> is called by \<^verbatim>\<open>load_settings\<close> and by itself
  with two dicts only; the model gives \<open>TypeError\<close> for any other argument and does
  not follow the source there. \<open>merge_keys\<close> is the loop \<^verbatim>\<open>for key_ in local\<close> and
  \<open>merge_key\<close> its body for one key, with \<open>m\<close> the address of \<^verbatim>\<open>merged\<close>, the copy of
  the template made first, and \<open>key0\<close> the source's \<^verbatim>\<open>key_\<close>. The result is the new
  store and the reference to \<^verbatim>\<open>merged\<close>. The first argument bounds the depth of nested
  calls, as in \<open>strip_flags\<close>.
\<close>

function merge_settings :: "nat \<Rightarrow> heap \<Rightarrow> val \<Rightarrow> val \<Rightarrow> py_error + heap \<times> val"
and merge_key :: "nat \<Rightarrow> heap \<Rightarrow> val \<Rightarrow> val \<Rightarrow> addr \<Rightarrow> string \<Rightarrow> py_error + heap"
and merge_keys :: "nat \<Rightarrow> heap \<Rightarrow> val \<Rightarrow> val \<Rightarrow> addr \<Rightarrow> string list \<Rightarrow> py_error + heap"
where
  "merge_settings 0 h template local = Inl RecursionError"
| "merge_settings (Suc n) h template local =
     (if \<not> (is_dict h template \<and> is_dict h local) then Inl TypeError
      else
        (case alloc h (ODict (the (get_dict h template))) of (h1, m) \<Rightarrow>
           (case merge_keys n h1 template local m (map fst (the (get_dict h1 local))) of
              Inl e \<Rightarrow> Inl e
            | Inr h2 \<Rightarrow>
                (case strip_flags n h2 (VRef m) of
                   Inl e \<Rightarrow> Inl e
                 | Inr h3 \<Rightarrow> Inr (h3, VRef m)))))"
| "merge_key n h template local m key0 =
     (let local_stomps = startswith key0 ''!'';
          key = (if local_stomps then drop 1 key0 else key0)
      in case map_of (the (get_dict h local)) key0 of
           None \<Rightarrow> Inl KeyError
         | Some entry_l \<Rightarrow>
             (case is_key_in (the (get_dict h template)) key of
                (False, flag) \<Rightarrow> Inr (set_item h m key entry_l)
              | (True, flag) \<Rightarrow>
                  (let local_key = flag @ key;
                       add_template = (\<not> local_stomps \<and> flag = ''+'');
                       entry_t = the (map_of (the (get_dict h template)) local_key);
                       r = (if local_stomps then Inr (set_item h m key entry_l)
                            else if is_dict h entry_t \<and> is_dict h entry_l then
                              (case merge_settings n h entry_t entry_l of
                                 Inl e \<Rightarrow> Inl e
                               | Inr (h', merged') \<Rightarrow> Inr (set_item h' m key merged'))
                            else if is_list h entry_t \<and> is_list h entry_l then
                              (if add_template then
                                 (case append_new n h (case entry_t of VRef t \<Rightarrow> t | _ \<Rightarrow> 0)
                                         (the (get_list h entry_l)) of
                                    Inl e \<Rightarrow> Inl e
                                  | Inr h' \<Rightarrow> Inr (set_item h' m key entry_t))
                               else Inr (set_item h m key entry_l))
                            else Inr (set_item h m key entry_l))
                   in case r of
                        Inl e \<Rightarrow> Inl e
                      | Inr h' \<Rightarrow>
                          Inr (if flag \<noteq> [] \<and> dict_has local_key (the (get_dict h' (VRef m)))
                               then del_item h' m local_key else h'))))"
| "merge_keys n h template local m [] = Inr h"
| "merge_keys n h template local m (key0 # keys) =
     (case merge_key n h template local m key0 of
        Inl e \<Rightarrow> Inl e
      | Inr h' \<Rightarrow> merge_keys n h' template local m keys)"
  by pat_completeness auto
termination
  by (relation "inv_image (less_than <*lex*> less_than <*lex*> less_than)
       (\<lambda>x. case x of Inl (n, h, t, l) \<Rightarrow> (n, 0, 0)
       | Inr (Inl (n, h, t, l, m, key0)) \<Rightarrow> (n, 1, 0)
       | Inr (Inr (n, h, t, l, m, keys)) \<Rightarrow> (n, 2, length keys))") auto

text \<open>
  The merge of two parsed documents: both are brought into an empty store, the template
  first, and the reference \<^verbatim>\<open>_merge_settings\<close> returns is read back as a document.
  \<open>merge_run\<close> gives the store as well, with the references to the two arguments.
\<close>

definition merge_run ::
  "nat \<Rightarrow> node \<Rightarrow> node \<Rightarrow> py_error + (heap \<times> val \<times> val \<times> val)" where
  "merge_run n template local =
     (case load [] template of (h0, t) \<Rightarrow>
        (case load h0 local of (h1, l) \<Rightarrow>
           (case merge_settings n h1 t l of
              Inl e \<Rightarrow> Inl e
            | Inr (h2, m) \<Rightarrow> Inr (h2, t, l, m))))"

definition Merge :: "nat \<Rightarrow> node \<Rightarrow> node \<Rightarrow> py_error + node option" where
  "Merge n template local =
     (case merge_run n template local of
        Inl e \<Rightarrow> Inl e
      | Inr (h, t, l, m) \<Rightarrow> Inr (read n h m))"

section \<open>The replacement of variables\<close>

subsection \<open>\<^verbatim>\<open>_lookup_variable_in_settings\<close>\<close>

text \<open>\<^verbatim>\<open>var_name.split(".")\<close>; the result is never empty.\<close>

fun split_dot :: "string \<Rightarrow> string list" where
  "split_dot [] = [[]]"
| "split_dot (c # cs) =
     (if c = CHR ''.'' then [] # split_dot cs
      else (case split_dot cs of
              [] \<Rightarrow> [[c]]
            | p # ps \<Rightarrow> (c # p) # ps))"

text \<open>\<^verbatim>\<open>p in s\<close> for two strings: \<open>p\<close> occurs in \<open>s\<close>.\<close>

fun is_substring :: "string \<Rightarrow> string \<Rightarrow> bool" where
  "is_substring p [] = (p = [])"
| "is_substring p (c # cs) = (startswith (c # cs) p \<or> is_substring p cs)"

text \<open>
  \<^verbatim>\<open>first_bit in s\<close>: a key of a dict, an item of a list, a part of a string; any
  other \<^verbatim>\<open>s\<close> is not iterable and the test raises \<^verbatim>\<open>TypeError\<close>.
\<close>

definition py_contains :: "heap \<Rightarrow> val \<Rightarrow> string \<Rightarrow> py_error + bool" where
  "py_contains h s first_bit =
     (if is_dict h s then Inr (dict_has first_bit (the (get_dict h s)))
      else if is_list h s then Inr (VStr first_bit \<in> set (the (get_list h s)))
      else (case s of
              VStr t \<Rightarrow> Inr (is_substring first_bit t)
            | _ \<Rightarrow> Inl TypeError))"

text \<open>
  \<^verbatim>\<open>s[first_bit]\<close> with a string between the brackets: the entry of a dict
  (\<^verbatim>\<open>KeyError\<close> when there is none), \<^verbatim>\<open>TypeError\<close> for a list, a string or
  anything else.
\<close>

definition py_subscript :: "heap \<Rightarrow> val \<Rightarrow> string \<Rightarrow> py_error + val" where
  "py_subscript h s first_bit =
     (if is_dict h s then
        (case map_of (the (get_dict h s)) first_bit of
           None \<Rightarrow> Inl KeyError
         | Some v \<Rightarrow> Inr v)
      else Inl TypeError)"

text \<open>
  The lookup along a path that is already split; \<open>VNone\<close> is Python's \<^verbatim>\<open>None\<close>, which
  the source returns when a segment is missing. The recursion follows the path.
\<close>

fun lookup_variable_in_settings :: "heap \<Rightarrow> val \<Rightarrow> string list \<Rightarrow> py_error + val" where
  "lookup_variable_in_settings h s [] = Inr VNone"
| "lookup_variable_in_settings h s (first_bit # rest) =
     (case py_contains h s first_bit of
        Inl e \<Rightarrow> Inl e
      | Inr False \<Rightarrow> Inr VNone
      | Inr True \<Rightarrow>
          (case py_subscript h s first_bit of
             Inl e \<Rightarrow> Inl e
           | Inr v \<Rightarrow> if rest = [] then Inr v else lookup_variable_in_settings h v rest))"

subsection \<open>\<^verbatim>\<open>_do_replace_variables\<close>\<close>

text \<open>The loops \<^verbatim>\<open>for key in _replacements: node[key] = _replacements[key]\<close>.\<close>

fun store_items :: "heap \<Rightarrow> addr \<Rightarrow> (string \<times> val) list \<Rightarrow> heap" where
  "store_items h a [] = h"
| "store_items h a ((k, v) # reps) = store_items (set_item h a k v) a reps"

fun store_indices :: "heap \<Rightarrow> addr \<Rightarrow> (nat \<times> val) list \<Rightarrow> heap" where
  "store_indices h a [] = h"
| "store_indices h a ((i, v) # reps) = store_indices (set_index h a i v) a reps"

text \<open>
  \<^verbatim>\<open>_do_replace_variables(node, settings)\<close> returns the replacement of the node and
  the number of changes; the model returns the new store with them. \<open>replace_entries\<close>
  is the first loop of the dict case over the keys of the node, \<open>replace_indices\<close>
  the first loop of the list case over its indices; both read the entry from the store
  when its turn comes and build \<^verbatim>\<open>_replacements\<close>, in insertion order, with the
  count of changes. Neither loop changes the keys of a dict or the length of a list, so
  the keys and indices are those the node had when the loop began. The first argument
  bounds the depth of nested calls, as in \<open>strip_flags\<close>.
\<close>

function do_replace_variables ::
  "nat \<Rightarrow> heap \<Rightarrow> val \<Rightarrow> val \<Rightarrow> py_error + heap \<times> val \<times> nat"
and replace_entries ::
  "nat \<Rightarrow> heap \<Rightarrow> val \<Rightarrow> val \<Rightarrow> string list \<Rightarrow> (string \<times> val) list \<Rightarrow> nat
     \<Rightarrow> py_error + heap \<times> (string \<times> val) list \<times> nat"
and replace_indices ::
  "nat \<Rightarrow> heap \<Rightarrow> val \<Rightarrow> val \<Rightarrow> nat list \<Rightarrow> (nat \<times> val) list \<Rightarrow> nat
     \<Rightarrow> py_error + heap \<times> (nat \<times> val) list \<times> nat"
where
  "do_replace_variables 0 h node settings = Inl RecursionError"
| "do_replace_variables (Suc n) h node settings =
     (case node of
        VStr str_value \<Rightarrow>
          (if startswith str_value ''$$'' then
             (case lookup_variable_in_settings h settings (split_dot (drop 2 str_value)) of
                Inl e \<Rightarrow> Inl e
              | Inr var_value \<Rightarrow>
                  if var_value = VNone then Inl (ValueError (drop 2 str_value))
                  else Inr (h, var_value, 1))
           else Inr (h, node, 0))
      | VRef a \<Rightarrow>
          (if is_dict h node then
             (case replace_entries n h node settings (map fst (the (get_dict h node))) [] 0 of
                Inl e \<Rightarrow> Inl e
              | Inr (h', reps, changes) \<Rightarrow>
                  Inr (if changes > 0 then store_items h' a reps else h', node, changes))
           else if is_list h node then
             (case replace_indices n h node settings [0 ..< length (the (get_list h node))] [] 0 of
                Inl e \<Rightarrow> Inl e
              | Inr (h', reps, changes) \<Rightarrow>
                  Inr (if changes > 0 then store_indices h' a reps else h', node, changes))
           else Inr (h, node, 0))
      | _ \<Rightarrow> Inr (h, node, 0))"
| "replace_entries n h node settings [] reps changes = Inr (h, reps, changes)"
| "replace_entries n h node settings (key # keys) reps changes =
     (case map_of (the (get_dict h node)) key of
        None \<Rightarrow> Inl KeyError
      | Some entry \<Rightarrow>
          (case do_replace_variables n h entry settings of
             Inl e \<Rightarrow> Inl e
           | Inr (h', replacement, changes') \<Rightarrow>
               if changes' > 0
               then replace_entries n h' node settings keys
                      (dict_set key replacement reps) (changes + changes')
               else replace_entries n h' node settings keys reps changes))"
| "replace_indices n h node settings [] reps changes = Inr (h, reps, changes)"
| "replace_indices n h node settings (i # is) reps changes =
     (if \<not> i < length (the (get_list h node)) then Inr (h, reps, changes)
      else
        (case do_replace_variables n h (the (get_list h node) ! i) settings of
           Inl e \<Rightarrow> Inl e
         | Inr (h', replacement, changes') \<Rightarrow>
             if changes' > 0
             then replace_indices n h' node settings is (reps @ [(i, replacement)])
                    (changes + changes')
             else replace_indices n h' node settings is reps changes))"
  by pat_completeness auto
termination
  by (relation "inv_image (less_than <*lex*> less_than)
       (\<lambda>x. case x of Inl (n, h, v, s) \<Rightarrow> (n, 0)
       | Inr (Inl (n, h, v, s, keys, reps, c)) \<Rightarrow> (n, Suc (length keys))
       | Inr (Inr (n, h, v, s, is, reps, c)) \<Rightarrow> (n, Suc (length is)))") auto

subsection \<open>\<^verbatim>\<open>_replace_variables\<close>\<close>

text \<open>
  The loop \<^verbatim>\<open>while changes > 0 and failsafe > 0\<close>. The model returns, with the store
  and the result, the values of \<^verbatim>\<open>changes\<close> and \<^verbatim>\<open>failsafe\<close> with which the loop
  ended, so that the number of passes can be told: it is \<open>999 - failsafe\<close>.
\<close>

fun replace_loop ::
  "nat \<Rightarrow> nat \<Rightarrow> nat \<Rightarrow> heap \<Rightarrow> val \<Rightarrow> val \<Rightarrow> py_error + heap \<times> val \<times> nat \<times> nat" where
  "replace_loop n 0 changes h result settings = Inr (h, result, changes, 0)"
| "replace_loop n (Suc failsafe) changes h result settings =
     (if changes > 0 then
        (case do_replace_variables n h result settings of
           Inl e \<Rightarrow> Inl e
         | Inr (h', result', changes') \<Rightarrow> replace_loop n failsafe changes' h' result' settings)
      else Inr (h, result, changes, Suc failsafe))"

text \<open>
  \<^verbatim>\<open>settings.copy()\<close> is the shallow copy of a dict or of a list; anything else has
  no \<^verbatim>\<open>copy\<close>, and the model gives \<open>TypeError\<close> for the \<^verbatim>\<open>AttributeError\<close>.
\<close>

definition replace_variables_loop ::
  "nat \<Rightarrow> heap \<Rightarrow> val \<Rightarrow> py_error + heap \<times> val \<times> nat \<times> nat" where
  "replace_variables_loop n h settings =
     (case settings of
        VRef a \<Rightarrow>
          (case get_obj h a of
             None \<Rightarrow> Inl TypeError
           | Some ob \<Rightarrow>
               (case alloc h ob of (h1, r) \<Rightarrow> replace_loop n 999 1 h1 (VRef r) settings))
      | _ \<Rightarrow> Inl TypeError)"

definition replace_variables :: "nat \<Rightarrow> heap \<Rightarrow> val \<Rightarrow> py_error + heap \<times> val" where
  "replace_variables n h settings =
     (case replace_variables_loop n h settings of
        Inl e \<Rightarrow> Inl e
      | Inr (h', result, changes, failsafe) \<Rightarrow> Inr (h', result))"

text \<open>
  The resolution of a parsed document: it is brought into an empty store, and the
  reference \<^verbatim>\<open>_replace_variables\<close> returns is read back as a document.
\<close>

definition Resolve :: "nat \<Rightarrow> node \<Rightarrow> py_error + node option" where
  "Resolve n tree =
     (case load [] tree of (h, s) \<Rightarrow>
        (case replace_variables n h s of
           Inl e \<Rightarrow> Inl e
         | Inr (h', result) \<Rightarrow> Inr (read n h' result)))"

text \<open>
  \<open>resolve_run\<close> gives the store after \<^verbatim>\<open>_replace_variables\<close>, with the reference
  to its argument and the reference it returns.
\<close>

definition resolve_run :: "nat \<Rightarrow> node \<Rightarrow> py_error + (heap \<times> val \<times> val)" where
  "resolve_run n tree =
     (case load [] tree of (h, s) \<Rightarrow>
        (case replace_variables n h s of
           Inl e \<Rightarrow> Inl e
         | Inr (h', result) \<Rightarrow> Inr (h', s, result)))"

subsection \<open>Documents without variables\<close>

text \<open>No string of the document, at any depth, begins with the variable token.\<close>

fun no_variables :: "node \<Rightarrow> bool"
and no_variables_list :: "node list \<Rightarrow> bool"
and no_variables_dict :: "(string \<times> node) list \<Rightarrow> bool"
where
  "no_variables Null = True"
| "no_variables (Boolean b) = True"
| "no_variables (Num i) = True"
| "no_variables (Str s) = (\<not> startswith s ''$$'')"
| "no_variables (Seq ns) = no_variables_list ns"
| "no_variables (Mapping kns) = no_variables_dict kns"
| "no_variables_list [] = True"
| "no_variables_list (n # ns) = (no_variables n \<and> no_variables_list ns)"
| "no_variables_dict [] = True"
| "no_variables_dict ((k, n) # kns) = (no_variables n \<and> no_variables_dict kns)"

subsection \<open>Predicates and iterates used in the properties\<close>

text \<open>No string that can be reached from a value of the store begins with the variable token.\<close>

definition clean :: "heap \<Rightarrow> val \<Rightarrow> bool" where
  "clean h v = (\<forall>s. VStr s \<in> reach h v \<longrightarrow> \<not> startswith s ''$$'')"

text \<open>
  The state after \<open>k\<close> passes of \<^verbatim>\<open>_do_replace_variables\<close> over the result, from a
  store, a result and a count of changes: each pass starts from the store and the result
  the pass before it returned.
\<close>

fun pass_iter :: "nat \<Rightarrow> val \<Rightarrow> nat \<Rightarrow> heap \<times> val \<times> nat \<Rightarrow> py_error + heap \<times> val \<times> nat" where
  "pass_iter n settings 0 st = Inr st"
| "pass_iter n settings (Suc k) (h, result, changes) =
     (case do_replace_variables n h result settings of
        Inl e \<Rightarrow> Inl e
      | Inr st' \<Rightarrow> pass_iter n settings k st')"

subsection \<open>Invariants of the store used in the properties of the merge\<close>

text \<open>A key with at most one flag: once a flag is dropped, no flag is left.\<close>

definition mild_key :: "string \<Rightarrow> bool" where
  "mild_key k = (\<not> (flagged k \<and> flagged (drop 1 k)))"

text \<open>Every key of a dict has a property; a list has no keys.\<close>

definition keys_ok :: "(string \<Rightarrow> bool) \<Rightarrow> obj \<Rightarrow> bool" where
  "keys_ok p ob = (case ob of ODict d \<Rightarrow> list_all p (map fst d) | OList xs \<Rightarrow> True)"

text \<open>Every key of every dict of the store has at most one flag.\<close>

definition heap_mild :: "heap \<Rightarrow> bool" where
  "heap_mild h = list_all (keys_ok mild_key) h"

text \<open>No dict that can be reached from a value has a flagged key.\<close>

definition stripped :: "heap \<Rightarrow> val \<Rightarrow> bool" where
  "stripped h v = (\<forall>a. VRef a \<in> reach h v \<longrightarrow> a < length h \<longrightarrow> keys_ok (\<lambda>k. \<not> flagged k) (h ! a))"

text \<open>The values an object holds.\<close>

definition children :: "obj \<Rightarrow> val set" where
  "children ob = (case ob of ODict d \<Rightarrow> ran (map_of d) | OList xs \<Rightarrow> set xs)"

text \<open>
  The store has the shape of documents: every object has a level, at most \<open>N\<close>, and the
  objects it holds exist and are one level below it.
\<close>

definition ranked :: "(addr \<Rightarrow> nat) \<Rightarrow> nat \<Rightarrow> heap \<Rightarrow> bool" where
  "ranked lv N h = (\<forall>a. a < length h \<longrightarrow> lv a \<le> N \<and>
       (\<forall>b. VRef b \<in> children (h ! a) \<longrightarrow> b < length h \<and> lv b = Suc (lv a)))"

text \<open>A dict stays a dict, and a list stays the same list.\<close>

definition same_kind :: "obj \<Rightarrow> obj \<Rightarrow> bool" where
  "same_kind ob ob' = (case ob of ODict d \<Rightarrow> (\<exists>d'. ob' = ODict d') | OList xs \<Rightarrow> ob' = OList xs)"

text \<open>
  What \<^verbatim>\<open>_strip_flags\<close> does to a store: no object is added, no object holds a value it
  did not hold, lists are as they were, and a dict without flagged keys, or with keys of
  one flag at most, stays so.
\<close>

definition sub :: "heap \<Rightarrow> heap \<Rightarrow> bool" where
  "sub h h' = (length h' = length h \<and>
     (\<forall>a. a < length h \<longrightarrow>
        children (h' ! a) \<subseteq> children (h ! a) \<and> same_kind (h ! a) (h' ! a)
        \<and> (keys_ok (\<lambda>k. \<not> flagged k) (h ! a) \<longrightarrow> keys_ok (\<lambda>k. \<not> flagged k) (h' ! a))
        \<and> (keys_ok mild_key (h ! a) \<longrightarrow> keys_ok mild_key (h' ! a))))"

text \<open>The objects above a level, but for those of a set, are as they were.\<close>

definition frame_ex :: "(addr \<Rightarrow> nat) \<Rightarrow> nat \<Rightarrow> addr set \<Rightarrow> heap \<Rightarrow> heap \<Rightarrow> bool" where
  "frame_ex lv l X h h' = (\<forall>c. c < length h \<longrightarrow> lv c < l \<longrightarrow> c \<notin> X \<longrightarrow> h' ! c = h ! c)"

text \<open>
  The state of the loop of \<^verbatim>\<open>_strip_flags\<close> over the keys of a dict: a key of the dict
  is still to come, or it has no flag and its entry is stripped.
\<close>

definition done_keys :: "addr \<Rightarrow> heap \<Rightarrow> string list \<Rightarrow> bool" where
  "done_keys a h ks = (\<forall>k y. map_of (the (get_dict h (VRef a))) k = Some y \<longrightarrow>
       k \<in> set ks \<or> (\<not> flagged k \<and> stripped h y))"

text \<open>
  What \<^verbatim>\<open>_merge_settings\<close> does to a store: objects are added, the old ones keep their
  levels, and the store keeps its shape and its keys of one flag at most.
\<close>

definition ext :: "(addr \<Rightarrow> nat) \<Rightarrow> nat \<Rightarrow> heap \<Rightarrow> (addr \<Rightarrow> nat) \<Rightarrow> heap \<Rightarrow> bool" where
  "ext lv N h lv' h' = (length h \<le> length h' \<and> (\<forall>c. c < length h \<longrightarrow> lv' c = lv c)
      \<and> ranked lv' N h' \<and> (heap_mild h \<longrightarrow> heap_mild h'))"

text \<open>
  The state of the loop of \<^verbatim>\<open>_merge_settings\<close>: the template, the local document and
  \<^verbatim>\<open>merged\<close> are three dicts of one level, and \<^verbatim>\<open>merged\<close> is neither of the others.
\<close>

definition mk_inv :: "(addr \<Rightarrow> nat) \<Rightarrow> nat \<Rightarrow> heap \<Rightarrow> addr \<Rightarrow> addr \<Rightarrow> addr \<Rightarrow> bool" where
  "mk_inv lv N h ta la m = (ranked lv N h \<and> ta < length h \<and> la < length h \<and> m < length h
      \<and> (\<exists>dt. h ! ta = ODict dt) \<and> (\<exists>dl. h ! la = ODict dl) \<and> (\<exists>dm. h ! m = ODict dm)
      \<and> lv la = lv ta \<and> lv m = lv ta \<and> m \<noteq> ta \<and> m \<noteq> la)"

text \<open>One or more rounds of the loop: only \<^verbatim>\<open>merged\<close> and objects below its level change.\<close>

definition step_ok :: "(addr \<Rightarrow> nat) \<Rightarrow> nat \<Rightarrow> heap \<Rightarrow> addr \<Rightarrow> (addr \<Rightarrow> nat) \<Rightarrow> heap \<Rightarrow> bool" where
  "step_ok lv N h m lv' h' = (ext lv N h lv' h' \<and> frame_ex lv (Suc (lv m)) {m} h h'
      \<and> (\<exists>dm. h' ! m = ODict dm))"

text \<open>
  The result of \<^verbatim>\<open>_merge_settings\<close>: a new dict of the level of the template, in a store
  where the objects down to that level are as they were, and stripped of flags when all
  keys had one flag at most.
\<close>

definition ms_post :: "(addr \<Rightarrow> nat) \<Rightarrow> nat \<Rightarrow> heap \<Rightarrow> val \<Rightarrow> heap \<Rightarrow> val \<Rightarrow> bool" where
  "ms_post lv N h t h' mv = (\<exists>lv' m ta. mv = VRef m \<and> t = VRef ta \<and> length h \<le> m \<and> m < length h'
      \<and> (\<exists>dm. h' ! m = ODict dm) \<and> lv' m = lv ta \<and> ext lv N h lv' h'
      \<and> frame_ex lv (Suc (lv ta)) {} h h' \<and> (heap_mild h \<longrightarrow> stripped h' mv))"

text \<open>Every key of the document, at every depth, has a property.\<close>

function all_keys :: "(string \<Rightarrow> bool) \<Rightarrow> node \<Rightarrow> bool"
and all_keys_list :: "(string \<Rightarrow> bool) \<Rightarrow> node list \<Rightarrow> bool"
and all_keys_dict :: "(string \<Rightarrow> bool) \<Rightarrow> (string \<times> node) list \<Rightarrow> bool"
where
  "all_keys p Null = True"
| "all_keys p (Boolean b) = True"
| "all_keys p (Num i) = True"
| "all_keys p (Str s) = True"
| "all_keys p (Seq ns) = all_keys_list p ns"
| "all_keys p (Mapping kns) = all_keys_dict p kns"
| "all_keys_list p [] = True"
| "all_keys_list p (n # ns) = (all_keys p n \<and> all_keys_list p ns)"
| "all_keys_dict p [] = True"
| "all_keys_dict p ((k, n) # kns) = (p k \<and> all_keys p n \<and> all_keys_dict p kns)"
  by pat_completeness auto
termination
  by (relation "measure (\<lambda>x. case x of Inl (p, n) \<Rightarrow> size n
       | Inr (Inl (p, ns)) \<Rightarrow> size_list size ns
       | Inr (Inr (p, kns)) \<Rightarrow> size_list (size_prod (\<lambda>x. 0) size) kns)") auto

text \<open>The nesting depth of a document.\<close>

function height :: "node \<Rightarrow> nat"
and height_list :: "node list \<Rightarrow> nat"
and height_dict :: "(string \<times> node) list \<Rightarrow> nat"
where
  "height Null = 0"
| "height (Boolean b) = 0"
| "height (Num i) = 0"
| "height (Str s) = 0"
| "height (Seq ns) = Suc (height_list ns)"
| "height (Mapping kns) = Suc (height_dict kns)"
| "height_list [] = 0"
| "height_list (n # ns) = max (height n) (height_list ns)"
| "height_dict [] = 0"
| "height_dict ((k, n) # kns) = max (height n) (height_dict kns)"
  by pat_completeness auto
termination
  by (relation "measure (\<lambda>x. case x of Inl n \<Rightarrow> size n
       | Inr (Inl ns) \<Rightarrow> size_list size ns
       | Inr (Inr kns) \<Rightarrow> size_list (size_prod (\<lambda>x. 0) size) kns)") auto

text \<open>What \<^verbatim>\<open>json.load\<close> does to a store: objects are added, the old ones are as they were.\<close>

definition loaded :: "(addr \<Rightarrow> nat) \<Rightarrow> nat \<Rightarrow> heap \<Rightarrow> (addr \<Rightarrow> nat) \<Rightarrow> heap \<Rightarrow> bool" where
  "loaded lv N h lv' h' = (length h \<le> length h' \<and> (\<forall>c. c < length h \<longrightarrow> lv' c = lv c \<and> h' ! c = h ! c)
      \<and> ranked lv' N h')"

text \<open>No key of the document, at any depth, begins with \<^verbatim>\<open>+\<close> or \<^verbatim>\<open>!\<close>.\<close>

definition flag_free :: "node \<Rightarrow> bool" where
  "flag_free t = all_keys (\<lambda>k. \<not> flagged k) t"

text \<open>
  The bound on the depth of calls is enough to go from a value down to the deepest level
  of the store.
\<close>

definition fuel_ok :: "(addr \<Rightarrow> nat) \<Rightarrow> nat \<Rightarrow> heap \<Rightarrow> nat \<Rightarrow> val \<Rightarrow> bool" where
  "fuel_ok lv N h n v = (0 < n \<and> (\<forall>b. v = VRef b \<longrightarrow> b < length h \<longrightarrow> N + 2 \<le> n + lv b))"

text \<open>
  One round of the loop of \<^verbatim>\<open>_strip_flags\<close> over the keys of a dict, as it changes the
  dict itself: a key that is still there and starts with a flag is stored again without
  its first character and then deleted; storing the entry back changes nothing.
\<close>

definition rename_key :: "string \<Rightarrow> pydict \<Rightarrow> pydict" where
  "rename_key key0 d =
     (case map_of d key0 of
        None \<Rightarrow> d
      | Some entry \<Rightarrow> if flagged key0 then dict_del key0 (dict_set (drop 1 key0) entry d) else d)"






section \<open>Properties of the merge and of the replacement\<close>

text \<open>
  In the examples the bound on the depth of calls is 1000, the default recursion limit of
  the interpreter.
\<close>

subsection \<open>Examples of the replacement\<close>

text \<open>
  C2. A reference is replaced by the value found along its dotted path, and the passes
  are repeated until a chain of references is followed to its end: the document
  \<^verbatim>\<open>{"a": {"c": 7}, "b": "$$a.c"}\<close> resolves to \<^verbatim>\<open>{"a": {"c": 7}, "b": 7}\<close>, and
  \<^verbatim>\<open>{"a": "$$b", "b": "$$c", "c": 5}\<close> resolves to \<^verbatim>\<open>{"a": 5, "b": 5, "c": 5}\<close>;
  the loop of the second ends with \<^verbatim>\<open>failsafe\<close> at 996, after three passes, the last
  of which changes nothing.
\<close>

theorem resolve_dotted_and_chained:
  "Resolve 1000 (Mapping [(''a'', Mapping [(''c'', Num 7)]), (''b'', Str ''$$a.c'')])
     = Inr (Some (Mapping [(''a'', Mapping [(''c'', Num 7)]), (''b'', Num 7)]))
   \<and> Resolve 1000 (Mapping [(''a'', Str ''$$b''), (''b'', Str ''$$c''), (''c'', Num 5)])
     = Inr (Some (Mapping [(''a'', Num 5), (''b'', Num 5), (''c'', Num 5)]))
   \<and> map_sum id (\<lambda>(h, r, c, f). (c, f))
        (replace_variables_loop 1000
           (fst (load [] (Mapping [(''a'', Str ''$$b''), (''b'', Str ''$$c''), (''c'', Num 5)])))
           (snd (load [] (Mapping [(''a'', Str ''$$b''), (''b'', Str ''$$c''), (''c'', Num 5)]))))
     = Inr (0, 996)"
  by code_simp

text \<open>
  C3. The claim: the replacement raises the error that names the variable exactly when the
  lookup along the dotted path finds no value, and a path that leads to a value has the
  reference replaced by it. The source does otherwise at two inputs. In
  \<^verbatim>\<open>{"a": 5, "b": "$$a.c"}\<close> the segment \<^verbatim>\<open>c\<close> is missing below the number
  \<^verbatim>\<open>a\<close>; the test \<^verbatim>\<open>first_bit in s\<close> of the lookup is made on the number and raises
  \<^verbatim>\<open>TypeError\<close>, not the error that names the variable. In
  \<^verbatim>\<open>{"a": null, "b": "$$a"}\<close> the path leads to the value \<^verbatim>\<open>null\<close>, which the
  source takes for a failed lookup, and it raises the error for the variable \<^verbatim>\<open>a\<close>.
\<close>

theorem resolve_lookup_errors:
  "Resolve 1000 (Mapping [(''a'', Num 5), (''b'', Str ''$$a.c'')]) = Inl TypeError
   \<and> Resolve 1000 (Mapping [(''a'', Null), (''b'', Str ''$$a'')]) = Inl (ValueError ''a'')"
  by code_simp

subsection \<open>The arguments after the call\<close>

text \<open>
  C9. The claim: after the merge and after the replacement the arguments are what they
  were before the call. The source changes them. After the merge of the local document
  \<^verbatim>\<open>{"x": [2, 3]}\<close> over the template \<^verbatim>\<open>{"+x": [1, 2]}\<close> the template is
  \<^verbatim>\<open>{"+x": [1, 2, 3]}\<close>: the local items were appended to the template's own list.
  After the merge of \<^verbatim>\<open>{"a": {"+b": 1}}\<close> over the empty template the local document
  is \<^verbatim>\<open>{"a": {"b": 1}}\<close>: the flags were stripped in the local document's own dict.
  After the replacement in \<^verbatim>\<open>{"a": {"b": "$$c"}, "c": 1}\<close> the argument is
  \<^verbatim>\<open>{"a": {"b": 1}, "c": 1}\<close>: the copy made first is shallow.
\<close>

theorem arguments_are_modified:
  "(case merge_run 1000 (Mapping [(''+x'', Seq [Num 1, Num 2])])
                        (Mapping [(''x'', Seq [Num 2, Num 3])]) of
      Inl e \<Rightarrow> None
    | Inr (h, t, l, m) \<Rightarrow> read 1000 h t)
     = Some (Mapping [(''+x'', Seq [Num 1, Num 2, Num 3])])
   \<and> (case merge_run 1000 (Mapping []) (Mapping [(''a'', Mapping [(''+b'', Num 1)])]) of
      Inl e \<Rightarrow> None
    | Inr (h, t, l, m) \<Rightarrow> read 1000 h l)
     = Some (Mapping [(''a'', Mapping [(''b'', Num 1)])])
   \<and> (case resolve_run 1000 (Mapping [(''a'', Mapping [(''b'', Str ''$$c'')]), (''c'', Num 1)]) of
      Inl e \<Rightarrow> None
    | Inr (h, s, r) \<Rightarrow> read 1000 h s)
     = Some (Mapping [(''a'', Mapping [(''b'', Num 1)]), (''c'', Num 1)])"
  by code_simp

subsection \<open>The end of the replacement\<close>

lemma reach_cases_root:
  "x \<in> reach h v \<Longrightarrow>
     x = v \<or> (\<exists>d k y. get_dict h v = Some d \<and> map_of d k = Some y \<and> x \<in> reach h y)
           \<or> (\<exists>xs y. get_list h v = Some xs \<and> y \<in> set xs \<and> x \<in> reach h y)"
proof (induction rule: reach.induct)
  case reach_self
  then show ?case by simp
next
  case (reach_entry x d k y)
  from reach_entry.IH show ?case
  proof (elim disjE exE conjE)
    assume "x = v"
    with reach_entry.hyps show ?thesis by (auto intro: reach.reach_self)
  next
    fix d' k' y' assume "get_dict h v = Some d'" "map_of d' k' = Some y'" "x \<in> reach h y'"
    with reach_entry.hyps show ?thesis by (blast intro: reach.reach_entry)
  next
    fix xs y' assume "get_list h v = Some xs" "y' \<in> set xs" "x \<in> reach h y'"
    with reach_entry.hyps show ?thesis by (blast intro: reach.reach_entry)
  qed
next
  case (reach_item x xs y)
  from reach_item.IH show ?case
  proof (elim disjE exE conjE)
    assume "x = v"
    with reach_item.hyps show ?thesis by (auto intro: reach.reach_self)
  next
    fix d' k' y' assume "get_dict h v = Some d'" "map_of d' k' = Some y'" "x \<in> reach h y'"
    with reach_item.hyps show ?thesis by (blast intro: reach.reach_item)
  next
    fix xs' y' assume "get_list h v = Some xs'" "y' \<in> set xs'" "x \<in> reach h y'"
    with reach_item.hyps show ?thesis by (blast intro: reach.reach_item)
  qed
qed

lemma get_dict_scalar [simp]:
  "get_dict h VNone = None" "get_dict h (VBool b) = None" "get_dict h (VInt i) = None" "get_dict h (VStr s) = None"
  by (simp_all add: get_dict_def)

lemma get_list_scalar [simp]:
  "get_list h VNone = None" "get_list h (VBool b) = None" "get_list h (VInt i) = None" "get_list h (VStr s) = None"
  by (simp_all add: get_list_def)

lemma not_dict_and_list: "get_dict h v = Some d \<Longrightarrow> get_list h v = None"
  by (auto simp: get_dict_def get_list_def split: val.splits option.splits obj.splits)

lemma clean_dictI:
  assumes "get_dict h v = Some d" and "\<And>k y. map_of d k = Some y \<Longrightarrow> clean h y"
  shows "clean h v"
  unfolding clean_def
proof (intro allI impI)
  fix s assume "VStr s \<in> reach h v"
  from reach_cases_root[OF this] assms show "\<not> startswith s ''$$''"
    by (auto simp: not_dict_and_list clean_def)
qed

lemma clean_listI:
  assumes "get_list h v = Some xs" and "\<And>y. y \<in> set xs \<Longrightarrow> clean h y"
  shows "clean h v"
  unfolding clean_def
proof (intro allI impI)
  fix s assume "VStr s \<in> reach h v"
  from reach_cases_root[OF this] assms show "\<not> startswith s ''$$''"
    by (auto simp: clean_def dest: not_dict_and_list)
qed

lemma clean_scalarI:
  assumes "get_dict h v = None" and "get_list h v = None"
    and "\<And>s. v = VStr s \<Longrightarrow> \<not> startswith s ''$$''"
  shows "clean h v"
  unfolding clean_def
proof (intro allI impI)
  fix s assume "VStr s \<in> reach h v"
  from reach_cases_root[OF this] assms show "\<not> startswith s ''$$''"
    by auto
qed

lemma pass_without_changes:
  "(do_replace_variables n h node settings = Inr (h', node', c) \<longrightarrow> c = 0 \<longrightarrow>
       h' = h \<and> node' = node \<and> clean h node)"
  "(replace_entries n h node settings keys reps c0 = Inr (h', reps', c') \<longrightarrow>
       c0 \<le> c' \<and> (c' = c0 \<longrightarrow> h' = h \<and> reps' = reps \<and>
          (\<forall>k y. k \<in> set keys \<longrightarrow> map_of (the (get_dict h node)) k = Some y \<longrightarrow> clean h y)))"
  "(replace_indices n h node settings is ireps c0 = Inr (h', ireps', c') \<longrightarrow> sorted is \<longrightarrow>
       c0 \<le> c' \<and> (c' = c0 \<longrightarrow> h' = h \<and> ireps' = ireps \<and>
          (\<forall>i. i \<in> set is \<longrightarrow> i < length (the (get_list h node)) \<longrightarrow> clean h (the (get_list h node) ! i))))"
proof (induction n h node settings and n h node settings keys reps c0 and n h node settings "is" ireps c0
       arbitrary: h' node' c and h' reps' c' and h' ireps' c'
       rule: do_replace_variables_replace_entries_replace_indices.induct)
  case (1 h node settings)
  then show ?case by simp
next
  case (2 n h node settings)
  show ?case
  proof (intro impI)
    assume run: "do_replace_variables (Suc n) h node settings = Inr (h', node', c)" and c0: "c = 0"
    show "h' = h \<and> node' = node \<and> clean h node"
    proof (cases node)
      case (VStr s)
      with run c0 show ?thesis
        by (auto split: if_splits sum.splits intro!: clean_scalarI)
    next
      case (VRef a)
      show ?thesis
      proof (cases "is_dict h node")
        case True
        then obtain d where d: "get_dict h node = Some d" by (auto simp: is_dict_def)
        from run VRef True obtain h1 reps1 c1 where
          r: "replace_entries n h node settings (map fst d) [] 0 = Inr (h1, reps1, c1)"
          and res: "h' = (if c1 > 0 then store_items h1 a reps1 else h1)" "node' = node" "c = c1"
          using d by (auto split: sum.splits)
        from "2.IH"(1)[OF VRef True, of h1 reps1 c1] r d c0 res
        have "h1 = h" and cl: "\<And>k y. k \<in> set (map fst d) \<Longrightarrow> map_of d k = Some y \<Longrightarrow> clean h y"
          by auto
        have "clean h node"
        proof (rule clean_dictI[OF d])
          fix k y assume "map_of d k = Some y"
          then have "k \<in> set (map fst d)" by (metis map_of_eq_None_iff option.distinct(1) set_map)
          with cl \<open>map_of d k = Some y\<close> show "clean h y" by blast
        qed
        with res c0 \<open>h1 = h\<close> show ?thesis by simp
      next
        case False
        show ?thesis
        proof (cases "is_list h node")
          case True
          then obtain xs where xs: "get_list h node = Some xs" by (auto simp: is_list_def)
          from run VRef False True obtain h1 reps1 c1 where
            r: "replace_indices n h node settings [0 ..< length xs] [] 0 = Inr (h1, reps1, c1)"
            and res: "h' = (if c1 > 0 then store_indices h1 a reps1 else h1)" "node' = node" "c = c1"
            using xs by (auto split: sum.splits)
          from "2.IH"(2)[OF VRef False True, of h1 reps1 c1] r xs c0 res sorted_upt
          have "h1 = h" and cl: "\<And>i. i < length xs \<Longrightarrow> clean h (xs ! i)"
            by auto
          have "clean h node"
            by (rule clean_listI[OF xs]) (auto simp: in_set_conv_nth cl)
          with res c0 \<open>h1 = h\<close> show ?thesis by simp
        next
          case notlist: False
          with run VRef False have "h' = h" "node' = node" by auto
          moreover have "clean h node"
            using False notlist VRef by (intro clean_scalarI) (auto simp: is_dict_def is_list_def)
          ultimately show ?thesis by simp
        qed
      qed
    qed (use run in \<open>auto intro!: clean_scalarI\<close>)
  qed
next
  case (3 n h node settings reps changes)
  then show ?case by simp
next
  case (4 n h node settings key keys reps changes)
  show ?case
  proof (intro impI)
    assume run: "replace_entries n h node settings (key # keys) reps changes = Inr (h', reps', c')"
    then obtain entry where e: "map_of (the (get_dict h node)) key = Some entry"
      by (auto split: option.splits)
    from run e obtain h1 repl c1 where
      d: "do_replace_variables n h entry settings = Inr (h1, repl, c1)"
      by (auto split: sum.splits)
    show "changes \<le> c' \<and> (c' = changes \<longrightarrow> h' = h \<and> reps' = reps \<and>
          (\<forall>k y. k \<in> set (key # keys) \<longrightarrow> map_of (the (get_dict h node)) k = Some y \<longrightarrow> clean h y))"
    proof (cases "c1 > 0")
      case True
      with run e d have "replace_entries n h1 node settings keys (dict_set key repl reps) (changes + c1)
           = Inr (h', reps', c')" by simp
      with "4.IH"(2)[OF e d refl refl True, of h' reps' c'] have "changes + c1 \<le> c'" by simp
      with True show ?thesis by simp
    next
      case False
      with "4.IH"(1)[OF e, of h1 repl c1] d have h1: "h1 = h" and cl: "clean h entry" by auto
      from False run e d have "replace_entries n h1 node settings keys reps changes = Inr (h', reps', c')"
        by simp
      with "4.IH"(3)[OF e d refl refl False, of h' reps' c'] h1
      have "changes \<le> c'" and "c' = changes \<Longrightarrow> h' = h \<and> reps' = reps \<and>
          (\<forall>k y. k \<in> set keys \<longrightarrow> map_of (the (get_dict h node)) k = Some y \<longrightarrow> clean h y)"
        by auto
      with cl e show ?thesis by auto
    qed
  qed
next
  case (5 n h node settings reps changes)
  then show ?case by simp
next
  case (6 n h node settings i "is" reps changes)
  show ?case
  proof (intro impI)
    assume run: "replace_indices n h node settings (i # is) reps changes = Inr (h', ireps', c')"
      and srt: "sorted (i # is)"
    show "changes \<le> c' \<and> (c' = changes \<longrightarrow> h' = h \<and> ireps' = reps \<and>
          (\<forall>j. j \<in> set (i # is) \<longrightarrow> j < length (the (get_list h node)) \<longrightarrow>
                clean h (the (get_list h node) ! j)))"
    proof (cases "i < length (the (get_list h node))")
      case False
      with run srt show ?thesis by fastforce
    next
      case inb: True
      then have nn: "\<not> \<not> i < length (the (get_list h node))" by simp
      from run inb obtain h1 repl c1 where
        d: "do_replace_variables n h (the (get_list h node) ! i) settings = Inr (h1, repl, c1)"
        by (auto split: sum.splits)
      show ?thesis
      proof (cases "c1 > 0")
        case True
        with run inb d have "replace_indices n h1 node settings is (reps @ [(i, repl)]) (changes + c1)
             = Inr (h', ireps', c')" by simp
        with "6.IH"(2)[OF nn d refl refl True, of h' ireps' c'] srt have "changes + c1 \<le> c'" by simp
        with True show ?thesis by simp
      next
        case False
        with "6.IH"(1)[OF nn, of h1 repl c1] d have h1: "h1 = h"
          and cl: "clean h (the (get_list h node) ! i)" by auto
        from False run inb d have "replace_indices n h1 node settings is reps changes = Inr (h', ireps', c')"
          by simp
        with "6.IH"(3)[OF nn d refl refl False, of h' ireps' c'] h1 srt
        have "changes \<le> c'" and "c' = changes \<Longrightarrow> h' = h \<and> ireps' = reps \<and>
            (\<forall>j. j \<in> set is \<longrightarrow> j < length (the (get_list h node)) \<longrightarrow>
                  clean h (the (get_list h node) ! j))"
          by auto
        with cl show ?thesis by auto
      qed
    qed
  qed
qed

lemma replace_loop_no_changes: "replace_loop n f 0 h r s = Inr (h, r, 0, f)"
  by (cases f) simp_all

lemma replace_loop_clean:
  "replace_loop n f c0 h r s = Inr (h', r', 0, f') \<Longrightarrow> c0 > 0 \<Longrightarrow> clean h' r'"
proof (induction f arbitrary: c0 h r)
  case 0
  then show ?case by simp
next
  case (Suc f)
  from Suc.prems obtain h1 r1 c1 where
    d: "do_replace_variables n h r s = Inr (h1, r1, c1)"
    and l: "replace_loop n f c1 h1 r1 s = Inr (h', r', 0, f')"
    by (auto split: sum.splits)
  show ?case
  proof (cases "c1 > 0")
    case True
    with Suc.IH[OF l] show ?thesis .
  next
    case False
    then have c1: "c1 = 0" by simp
    with pass_without_changes(1)[of n h r s h1 r1 c1] d have "h1 = h" "r1 = r" "clean h r" by auto
    moreover from l c1 have "h' = h1" "r' = r1" by (simp_all add: replace_loop_no_changes)
    ultimately show ?thesis by simp
  qed
qed

lemma reach_trans: "x \<in> reach h y \<Longrightarrow> y \<in> reach h v \<Longrightarrow> x \<in> reach h v"
  by (induction rule: reach.induct) (auto intro: reach.intros)

lemma clean_entry: "clean h v \<Longrightarrow> get_dict h v = Some d \<Longrightarrow> map_of d k = Some y \<Longrightarrow> clean h y"
  unfolding clean_def by (meson reach.reach_entry reach.reach_self reach_trans)

lemma clean_item: "clean h v \<Longrightarrow> get_list h v = Some xs \<Longrightarrow> y \<in> set xs \<Longrightarrow> clean h y"
  unfolding clean_def by (meson reach.reach_item reach.reach_self reach_trans)

lemma read_clean:
  "read k h v = Some t \<longrightarrow> clean h v \<longrightarrow> no_variables t"
  "read_list k h xs = Some ts \<longrightarrow> (\<forall>x. x \<in> set xs \<longrightarrow> clean h x) \<longrightarrow> no_variables_list ts"
  "read_dict k h d ks = Some kts \<longrightarrow> (\<forall>key y. map_of d key = Some y \<longrightarrow> clean h y) \<longrightarrow> no_variables_dict kts"
proof (induction k h v and k h xs and k h d ks arbitrary: t and ts and kts
       rule: read_read_list_read_dict.induct)
  case (1 h v)
  then show ?case by simp
next
  case (2 n h v)
  show ?case
  proof (intro impI)
    assume r: "read (Suc n) h v = Some t" and c: "clean h v"
    show "no_variables t"
    proof (cases v)
      case (VStr s)
      with r c show ?thesis by (auto simp: clean_def intro: reach.reach_self)
    next
      case (VRef a)
      show ?thesis
      proof (cases "get_obj h a")
        case None
        with r VRef show ?thesis by simp
      next
        case (Some ob)
        show ?thesis
        proof (cases ob)
          case (ODict d)
          with Some VRef have gd: "get_dict h v = Some d" by (simp add: get_dict_def)
          from r VRef Some ODict obtain kts where
            rd: "read_dict n h d (map fst d) = Some kts" and t: "t = Mapping kts" by auto
          from "2.IH"(1)[OF VRef Some ODict, of kts] rd clean_entry[OF c gd]
          show ?thesis unfolding t by auto
        next
          case (OList xs)
          with Some VRef have gl: "get_list h v = Some xs" by (simp add: get_list_def)
          from r VRef Some OList obtain ts where
            rl: "read_list n h xs = Some ts" and t: "t = Seq ts" by auto
          from "2.IH"(2)[OF VRef Some OList, of ts] rl clean_item[OF c gl]
          show ?thesis unfolding t by auto
        qed
      qed
    qed (use r in auto)
  qed
next
  case (3 n h)
  then show ?case by simp
next
  case (4 n h x xs)
  then show ?case by (auto split: option.splits)
next
  case (5 n h d)
  then show ?case by simp
next
  case (6 n h d k ks)
  then show ?case by (auto split: option.splits)
qed

text \<open>
  C4. When \<^verbatim>\<open>_replace_variables\<close> returns after a pass that made no replacement (the
  loop ends with \<^verbatim>\<open>changes\<close> at 0), no string that can be reached from the result, as
  the entry of a dict or the item of a list at any depth, begins with \<^verbatim>\<open>$$\<close>; and the
  document read back from the result has no such string.
\<close>

theorem fixed_point_has_no_variables:
  assumes "replace_variables_loop n h settings = Inr (h', result, 0, failsafe)"
  shows "(\<forall>s. VStr s \<in> reach h' result \<longrightarrow> \<not> startswith s ''$$'')
       \<and> (\<forall>k t. read k h' result = Some t \<longrightarrow> no_variables t)"
proof -
  from assms have "clean h' result"
    by (auto simp: replace_variables_loop_def alloc_def split: val.splits option.splits
             dest: replace_loop_clean)
  then show ?thesis
    using read_clean(1) by (auto simp: clean_def)
qed

theorem fixed_point_has_no_variables_witness:
  "replace_variables_loop 1000
       [ODict [(''a'', VStr ''$$b''), (''b'', VStr ''$$c''), (''c'', VInt 5)]] (VRef 0)
     = Inr ([ODict [(''a'', VStr ''$$b''), (''b'', VStr ''$$c''), (''c'', VInt 5)],
             ODict [(''a'', VInt 5), (''b'', VInt 5), (''c'', VInt 5)]], VRef 1, 0, 996)
   \<and> VStr ''$$b'' \<notin> reach [ODict [(''a'', VStr ''$$b''), (''b'', VStr ''$$c''), (''c'', VInt 5)],
             ODict [(''a'', VInt 5), (''b'', VInt 5), (''c'', VInt 5)]] (VRef 1)
   \<and> no_variables (Mapping [(''a'', Num 5), (''b'', Num 5), (''c'', Num 5)])"
proof -
  have run: "replace_variables_loop 1000
       [ODict [(''a'', VStr ''$$b''), (''b'', VStr ''$$c''), (''c'', VInt 5)]] (VRef 0)
     = Inr ([ODict [(''a'', VStr ''$$b''), (''b'', VStr ''$$c''), (''c'', VInt 5)],
             ODict [(''a'', VInt 5), (''b'', VInt 5), (''c'', VInt 5)]], VRef 1, 0, 996)"
    by code_simp
  have st: "startswith ''$$b'' ''$$''" by code_simp
  from fixed_point_has_no_variables[OF run] st run show ?thesis
    by (auto simp del: replace_variables_loop_def)
qed

lemma replace_loop_passes:
  "replace_loop n f c h r s = Inr (h', r', c', f') \<Longrightarrow> c > 0 \<Longrightarrow>
     f' \<le> f \<and> (c' = 0 \<or> f' = 0)
     \<and> pass_iter n s (f - f') (h, r, c) = Inr (h', r', c')
     \<and> (\<forall>j. j < f - f' \<longrightarrow> (\<exists>hj rj cj. pass_iter n s j (h, r, c) = Inr (hj, rj, cj) \<and> cj > 0))"
proof (induction f arbitrary: c h r)
  case 0
  then show ?case by simp
next
  case (Suc f)
  from Suc.prems obtain h1 r1 c1 where
    d: "do_replace_variables n h r s = Inr (h1, r1, c1)"
    and l: "replace_loop n f c1 h1 r1 s = Inr (h', r', c', f')"
    by (auto split: sum.splits)
  show ?case
  proof (cases "c1 > 0")
    case True
    from Suc.IH[OF l True] have le: "f' \<le> f" and stop: "c' = 0 \<or> f' = 0"
      and it: "pass_iter n s (f - f') (h1, r1, c1) = Inr (h', r', c')"
      and pos: "\<And>j. j < f - f' \<Longrightarrow> \<exists>hj rj cj. pass_iter n s j (h1, r1, c1) = Inr (hj, rj, cj) \<and> cj > 0"
      by auto
    from le have eq: "Suc f - f' = Suc (f - f')" by simp
    have "\<exists>hj rj cj. pass_iter n s j (h, r, c) = Inr (hj, rj, cj) \<and> cj > 0" if "j < Suc f - f'" for j
    proof (cases j)
      case 0
      with Suc.prems(2) show ?thesis by simp
    next
      case (Suc j')
      with that eq have "j' < f - f'" by simp
      from pos[OF this] Suc d show ?thesis by simp
    qed
    with le stop it d eq show ?thesis by simp
  next
    case False
    then have c1: "c1 = 0" by simp
    with l have res: "h' = h1" "r' = r1" "c' = 0" "f' = f" by (cases f; simp)+
    have "\<exists>hj rj cj. pass_iter n s j (h, r, c) = Inr (hj, rj, cj) \<and> cj > 0" if "j < Suc f - f'" for j
      using that res Suc.prems(2) by simp
    with res d c1 show ?thesis by simp
  qed
qed

lemma cyc_step1:
  "do_replace_variables 1000 [ODict [(''a'', VStr ''$$b''), (''b'', VStr ''$$a'')],
        ODict [(''a'', VStr ''$$b''), (''b'', VStr ''$$a'')]] (VRef (Suc 0)) (VRef 0)
    = Inr ([ODict [(''a'', VStr ''$$b''), (''b'', VStr ''$$a'')],
        ODict [(''a'', VStr ''$$a''), (''b'', VStr ''$$b'')]], VRef (Suc 0), 2)"
  by code_simp

lemma cyc_step2:
  "do_replace_variables 1000 [ODict [(''a'', VStr ''$$b''), (''b'', VStr ''$$a'')],
        ODict [(''a'', VStr ''$$a''), (''b'', VStr ''$$b'')]] (VRef (Suc 0)) (VRef 0)
    = Inr ([ODict [(''a'', VStr ''$$b''), (''b'', VStr ''$$a'')],
        ODict [(''a'', VStr ''$$b''), (''b'', VStr ''$$a'')]], VRef (Suc 0), 2)"
  by code_simp

lemma cyc_loop:
  "c > 0 \<Longrightarrow> replace_loop 1000 (Suc (2 * k)) c [ODict [(''a'', VStr ''$$b''), (''b'', VStr ''$$a'')],
        ODict [(''a'', VStr ''$$b''), (''b'', VStr ''$$a'')]] (VRef (Suc 0)) (VRef 0)
    = Inr ([ODict [(''a'', VStr ''$$b''), (''b'', VStr ''$$a'')],
        ODict [(''a'', VStr ''$$a''), (''b'', VStr ''$$b'')]], VRef (Suc 0), 2, 0)"
proof (induction k arbitrary: c)
  case 0
  then show ?case by (simp add: cyc_step1)
next
  case (Suc k)
  have "2 * Suc k = Suc (Suc (2 * k))" by simp
  with Suc.prems Suc.IH[of 2] show ?case by (simp add: cyc_step1 cyc_step2)
qed

lemma cyc_run:
  "replace_variables_loop 1000 [ODict [(''a'', VStr ''$$b''), (''b'', VStr ''$$a'')]] (VRef 0)
    = Inr ([ODict [(''a'', VStr ''$$b''), (''b'', VStr ''$$a'')],
        ODict [(''a'', VStr ''$$a''), (''b'', VStr ''$$b'')]], VRef (Suc 0), 2, 0)"
proof -
  have "(999::nat) = Suc (2 * 499)" by simp
  then show ?thesis
    using cyc_loop[of 1 499]
    by (simp add: replace_variables_loop_def get_obj_def alloc_def del: replace_loop.simps)
qed

lemma cyc_load: "load [] (Mapping [(''a'', Str ''$$b''), (''b'', Str ''$$a'')])
   = ([ODict [(''a'', VStr ''$$b''), (''b'', VStr ''$$a'')]], VRef 0)"
  by code_simp

lemma cyc_read: "read 1000 [ODict [(''a'', VStr ''$$b''), (''b'', VStr ''$$a'')],
        ODict [(''a'', VStr ''$$a''), (''b'', VStr ''$$b'')]] (VRef (Suc 0))
   = Some (Mapping [(''a'', Str ''$$a''), (''b'', Str ''$$b'')])"
  by code_simp

text \<open>
  What the loop of \<^verbatim>\<open>_replace_variables\<close> has done when it returns: \<^verbatim>\<open>failsafe\<close>
  is at most 999, the result is the state after \<open>999 - failsafe\<close> passes, every pass
  before the last made a replacement, and either the last pass made none or the 999 passes
  are used up. With no pass left the loop returns what it has, whatever the count of
  changes, and raises nothing. The cyclic document \<^verbatim>\<open>{"a": "$$b", "b": "$$a"}\<close> uses
  the 999 passes, the last of which still made two replacements, and the call returns
  \<^verbatim>\<open>{"a": "$$a", "b": "$$b"}\<close>.
\<close>

lemma replace_variables_bounded:
  "(\<forall>n h settings h' result changes failsafe.
      replace_variables_loop n h settings = Inr (h', result, changes, failsafe) \<longrightarrow>
        failsafe \<le> 999 \<and> (changes = 0 \<or> failsafe = 0)
        \<and> (\<exists>a ob. settings = VRef a \<and> get_obj h a = Some ob
             \<and> pass_iter n settings (999 - failsafe) (h @ [ob], VRef (length h), 1)
                 = Inr (h', result, changes)
             \<and> (\<forall>j. j < 999 - failsafe \<longrightarrow>
                   (\<exists>hj rj cj. pass_iter n settings j (h @ [ob], VRef (length h), 1) = Inr (hj, rj, cj)
                        \<and> cj > 0))))
   \<and> (\<forall>n changes h result settings.
        replace_loop n 0 changes h result settings = Inr (h, result, changes, 0))
   \<and> map_sum id (\<lambda>(h, r, c, f). (c, f))
        (replace_variables_loop 1000
           (fst (load [] (Mapping [(''a'', Str ''$$b''), (''b'', Str ''$$a'')])))
           (snd (load [] (Mapping [(''a'', Str ''$$b''), (''b'', Str ''$$a'')]))))
       = Inr (2, 0)
   \<and> Resolve 1000 (Mapping [(''a'', Str ''$$b''), (''b'', Str ''$$a'')])
       = Inr (Some (Mapping [(''a'', Str ''$$a''), (''b'', Str ''$$b'')]))"
proof (intro conjI allI impI)
  fix n h settings h' result changes failsafe
  assume run: "replace_variables_loop n h settings = Inr (h', result, changes, failsafe)"
  then obtain a ob where s: "settings = VRef a" "get_obj h a = Some ob"
    and l: "replace_loop n 999 1 (h @ [ob]) (VRef (length h)) settings = Inr (h', result, changes, failsafe)"
    by (auto simp: replace_variables_loop_def alloc_def split: val.splits option.splits)
  from replace_loop_passes[OF l] s
  show "failsafe \<le> 999" "changes = 0 \<or> failsafe = 0"
    "\<exists>a ob. settings = VRef a \<and> get_obj h a = Some ob
             \<and> pass_iter n settings (999 - failsafe) (h @ [ob], VRef (length h), 1)
                 = Inr (h', result, changes)
             \<and> (\<forall>j. j < 999 - failsafe \<longrightarrow>
                   (\<exists>hj rj cj. pass_iter n settings j (h @ [ob], VRef (length h), 1) = Inr (hj, rj, cj)
                        \<and> cj > 0))"
    by auto
next
  show "map_sum id (\<lambda>(h, r, c, f). (c, f))
        (replace_variables_loop 1000
           (fst (load [] (Mapping [(''a'', Str ''$$b''), (''b'', Str ''$$a'')])))
           (snd (load [] (Mapping [(''a'', Str ''$$b''), (''b'', Str ''$$a'')]))))
       = Inr (2, 0)"
    by (simp add: cyc_load cyc_run del: load.simps)
next
  show "Resolve 1000 (Mapping [(''a'', Str ''$$b''), (''b'', Str ''$$a'')])
       = Inr (Some (Mapping [(''a'', Str ''$$a''), (''b'', Str ''$$b'')]))"
    by (simp add: Resolve_def replace_variables_def cyc_load cyc_run cyc_read del: load.simps)
qed simp

lemma replace_variables_bounded_witness:
  "replace_variables_loop 1000 [ODict [(''a'', VStr ''$$b''), (''b'', VStr ''$$a'')]] (VRef 0)
    = Inr ([ODict [(''a'', VStr ''$$b''), (''b'', VStr ''$$a'')],
        ODict [(''a'', VStr ''$$a''), (''b'', VStr ''$$b'')]], VRef 1, 2, 0)
   \<and> pass_iter 1000 (VRef 0) 999
        ([ODict [(''a'', VStr ''$$b''), (''b'', VStr ''$$a'')],
          ODict [(''a'', VStr ''$$b''), (''b'', VStr ''$$a'')]], VRef 1, 1)
      = Inr ([ODict [(''a'', VStr ''$$b''), (''b'', VStr ''$$a'')],
        ODict [(''a'', VStr ''$$a''), (''b'', VStr ''$$b'')]], VRef 1, 2)"
proof -
  from replace_variables_bounded cyc_run
  have "\<exists>a ob. VRef 0 = VRef a
      \<and> get_obj [ODict [(''a'', VStr ''$$b''), (''b'', VStr ''$$a'')]] a = Some ob
      \<and> pass_iter 1000 (VRef 0) (999 - 0)
          ([ODict [(''a'', VStr ''$$b''), (''b'', VStr ''$$a'')]] @ [ob],
           VRef (length [ODict [(''a'', VStr ''$$b''), (''b'', VStr ''$$a'')]]), 1)
        = Inr ([ODict [(''a'', VStr ''$$b''), (''b'', VStr ''$$a'')],
            ODict [(''a'', VStr ''$$a''), (''b'', VStr ''$$b'')]], VRef (Suc 0), 2)"
    by blast
  then show ?thesis
    using cyc_run by (auto simp: get_obj_def simp del: pass_iter.simps)
qed

text \<open>
  A reference to a dict that holds the reference: the store after loading, the first
  pass, which needs three nested calls, and the second pass, which finds the dict inside
  itself.
\<close>

lemma self_load:
  "load [] (Mapping [(''a'', Mapping [(''b'', Str ''$$a'')])])
     = ([ODict [(''b'', VStr ''$$a'')], ODict [(''a'', VRef 0)]], VRef (Suc 0))"
  by (simp add: alloc_def)

lemma self_cycle:
  "do_replace_variables n
     [ODict [(''b'', VRef 0)], ODict [(''a'', VRef 0)], ODict [(''a'', VRef 0)]]
     (VRef 0) (VRef (Suc 0)) = Inl RecursionError"
proof (induction n)
  case 0
  then show ?case by simp
next
  case (Suc n)
  then show ?case by (simp add: is_dict_def get_dict_def get_obj_def)
qed

lemma self_pass1:
  "do_replace_variables (Suc (Suc (Suc k)))
     [ODict [(''b'', VStr ''$$a'')], ODict [(''a'', VRef 0)], ODict [(''a'', VRef 0)]]
     (VRef (Suc (Suc 0))) (VRef (Suc 0))
   = Inr ([ODict [(''b'', VRef 0)], ODict [(''a'', VRef 0)], ODict [(''a'', VRef 0)]],
          VRef (Suc (Suc 0)), Suc 0)"
  by (simp add: is_dict_def get_dict_def get_obj_def startswith_def py_contains_def
        py_subscript_def dict_has_def set_item_def)

lemma self_pass2:
  "do_replace_variables n
     [ODict [(''b'', VRef 0)], ODict [(''a'', VRef 0)], ODict [(''a'', VRef 0)]]
     (VRef (Suc (Suc 0))) (VRef (Suc 0)) = Inl RecursionError"
proof (cases n)
  case 0
  then show ?thesis by simp
next
  case (Suc m)
  then show ?thesis by (simp add: is_dict_def get_dict_def get_obj_def self_cycle)
qed

lemma self_pass1_short:
  "n < 3 \<Longrightarrow> do_replace_variables n
     [ODict [(''b'', VStr ''$$a'')], ODict [(''a'', VRef 0)], ODict [(''a'', VRef 0)]]
     (VRef (Suc (Suc 0))) (VRef (Suc 0)) = Inl RecursionError"
proof -
  assume "n < 3"
  then consider "n = 0" | "n = Suc 0" | "n = Suc (Suc 0)" by linarith
  then show ?thesis
    by cases (simp_all add: is_dict_def get_dict_def get_obj_def)
qed

lemma replace_loop_unfold:
  "replace_loop n (Suc f) (Suc c) h r s =
        (case do_replace_variables n h r s of
           Inl e \<Rightarrow> Inl e
         | Inr (h', r', c') \<Rightarrow> replace_loop n f c' h' r' s)"
  by simp

lemma self_loop:
  "replace_loop n (Suc (Suc f)) (Suc 0)
     [ODict [(''b'', VStr ''$$a'')], ODict [(''a'', VRef 0)], ODict [(''a'', VRef 0)]]
     (VRef (Suc (Suc 0))) (VRef (Suc 0)) = Inl RecursionError"
proof (cases "n < 3")
  case True
  show ?thesis
    by (subst replace_loop_unfold) (simp only: self_pass1_short[OF True] sum.case)
next
  case False
  then have n: "n = Suc (Suc (Suc (n - 3)))" by simp
  have "replace_loop n (Suc (Suc f)) (Suc 0)
     [ODict [(''b'', VStr ''$$a'')], ODict [(''a'', VRef 0)], ODict [(''a'', VRef 0)]]
     (VRef (Suc (Suc 0))) (VRef (Suc 0))
    = replace_loop n (Suc f) (Suc 0)
     [ODict [(''b'', VRef 0)], ODict [(''a'', VRef 0)], ODict [(''a'', VRef 0)]]
     (VRef (Suc (Suc 0))) (VRef (Suc 0))"
    by (subst replace_loop_unfold, subst n) (simp only: self_pass1 sum.case prod.case)
  also have "\<dots> = Inl RecursionError"
    by (subst replace_loop_unfold) (simp only: self_pass2 sum.case)
  finally show ?thesis .
qed

text \<open>
  C5. \<^verbatim>\<open>_replace_variables\<close> does not return for every document. In
  \<^verbatim>\<open>{"a": {"b": "$$a"}}\<close> the reference stands inside the dict it names: the first pass
  stores that dict under its own key \<^verbatim>\<open>b\<close>, the second pass descends into it without
  end, and the call ends in \<^verbatim>\<open>RecursionError\<close>, whatever the bound on the depth of
  calls. The count of passes does not bound the work inside one pass.
\<close>

theorem resolve_self_reference_fails:
  "Resolve n (Mapping [(''a'', Mapping [(''b'', Str ''$$a'')])]) = Inl RecursionError"
proof -
  have "(999::nat) = Suc (Suc 997)" by simp
  then have "replace_loop n 999 (Suc 0)
     [ODict [(''b'', VStr ''$$a'')], ODict [(''a'', VRef 0)], ODict [(''a'', VRef 0)]]
     (VRef (Suc (Suc 0))) (VRef (Suc 0)) = Inl RecursionError"
    by (simp only: self_loop)
  then show ?thesis
    by (simp add: Resolve_def replace_variables_def replace_variables_loop_def self_load
          get_obj_def alloc_def
          del: load.simps do_replace_variables.simps replace_loop.simps)
qed

subsection \<open>The shape of the store\<close>

lemma get_dict_Some: "get_dict h v = Some d \<longleftrightarrow> (\<exists>a. v = VRef a \<and> a < length h \<and> h ! a = ODict d)"
  by (auto simp: get_dict_def get_obj_def split: val.splits option.splits obj.splits)

lemma get_list_Some: "get_list h v = Some xs \<longleftrightarrow> (\<exists>a. v = VRef a \<and> a < length h \<and> h ! a = OList xs)"
  by (auto simp: get_list_def get_obj_def split: val.splits option.splits obj.splits)

lemma is_dict_iff: "is_dict h v \<longleftrightarrow> (\<exists>a d. v = VRef a \<and> a < length h \<and> h ! a = ODict d)"
  by (auto simp: is_dict_def get_dict_Some)

lemma is_list_iff: "is_list h v \<longleftrightarrow> (\<exists>a xs. v = VRef a \<and> a < length h \<and> h ! a = OList xs)"
  by (auto simp: is_list_def get_list_Some)

lemma reach_step_children:
  "x \<in> reach h v \<Longrightarrow> x = v \<or> (\<exists>a y. v = VRef a \<and> a < length h \<and> y \<in> children (h ! a) \<and> x \<in> reach h y)"
proof (induction rule: reach.induct)
  case reach_self
  then show ?case by simp
next
  case (reach_entry x d k y)
  from reach_entry.IH show ?case
  proof
    assume "x = v"
    with reach_entry.hyps have "\<exists>a. v = VRef a \<and> a < length h \<and> y \<in> children (h ! a)"
      by (auto simp: get_dict_Some children_def ran_def)
    then show ?thesis by (auto intro: reach.reach_self)
  next
    assume "\<exists>a y. v = VRef a \<and> a < length h \<and> y \<in> children (h ! a) \<and> x \<in> reach h y"
    with reach_entry.hyps show ?thesis by (blast intro: reach.reach_entry)
  qed
next
  case (reach_item x xs y)
  from reach_item.IH show ?case
  proof
    assume "x = v"
    with reach_item.hyps have "\<exists>a. v = VRef a \<and> a < length h \<and> y \<in> children (h ! a)"
      by (auto simp: get_list_Some children_def)
    then show ?thesis by (auto intro: reach.reach_self)
  next
    assume "\<exists>a y. v = VRef a \<and> a < length h \<and> y \<in> children (h ! a) \<and> x \<in> reach h y"
    with reach_item.hyps show ?thesis by (blast intro: reach.reach_item)
  qed
qed

lemma child_reach: "a < length h \<Longrightarrow> y \<in> children (h ! a) \<Longrightarrow> y \<in> reach h (VRef a)"
  by (cases "h ! a")
     (auto simp: children_def ran_def get_dict_Some get_list_Some
           intro: reach.reach_entry[OF reach.reach_self] reach.reach_item[OF reach.reach_self])

lemma reach_sub:
  assumes "sub h h'" and "z \<in> reach h' v"
  shows "z \<in> reach h v"
  using assms(2)
proof (induction rule: reach.induct)
  case reach_self
  then show ?case by (rule reach.reach_self)
next
  case (reach_entry x d k y)
  then obtain a where a: "x = VRef a" "a < length h'" "h' ! a = ODict d" by (auto simp: get_dict_Some)
  with reach_entry.hyps have "y \<in> children (h' ! a)" by (auto simp: children_def ran_def)
  with assms(1) a have "y \<in> children (h ! a)" "a < length h"
    unfolding sub_def by (metis subsetD)+
  then have "y \<in> reach h x" using a by (simp add: child_reach)
  with reach_entry.IH show ?case by (blast intro: reach_trans)
next
  case (reach_item x xs y)
  then obtain a where a: "x = VRef a" "a < length h'" "h' ! a = OList xs" by (auto simp: get_list_Some)
  with reach_item.hyps have "y \<in> children (h' ! a)" by (auto simp: children_def)
  with assms(1) a have "y \<in> children (h ! a)" "a < length h"
    unfolding sub_def by (metis subsetD)+
  then have "y \<in> reach h x" using a by (simp add: child_reach)
  with reach_item.IH show ?case by (blast intro: reach_trans)
qed

lemma same_kind_refl [simp]: "same_kind ob ob"
  by (simp add: same_kind_def split: obj.splits)

lemma same_kind_trans: "same_kind a b \<Longrightarrow> same_kind b c \<Longrightarrow> same_kind a c"
  by (auto simp: same_kind_def split: obj.splits)

lemma sub_refl [simp]: "sub h h"
  by (simp add: sub_def)

lemma sub_trans: "sub h1 h2 \<Longrightarrow> sub h2 h3 \<Longrightarrow> sub h1 h3"
  unfolding sub_def by (auto intro: same_kind_trans)

lemma stripped_sub: "stripped h v \<Longrightarrow> sub h h' \<Longrightarrow> stripped h' v"
  unfolding stripped_def by (metis reach_sub sub_def)

lemma heap_mild_sub: "heap_mild h \<Longrightarrow> sub h h' \<Longrightarrow> heap_mild h'"
  by (simp add: heap_mild_def sub_def list_all_length)

lemma ranked_sub: "ranked lv N h \<Longrightarrow> sub h h' \<Longrightarrow> ranked lv N h'"
  unfolding ranked_def sub_def by (metis subsetD)

lemma stripped_leaf: "\<not> is_dict h v \<Longrightarrow> \<not> is_list h v \<Longrightarrow> stripped h v"
  unfolding stripped_def
proof (intro allI impI)
  fix a assume nd: "\<not> is_dict h v" "\<not> is_list h v" and r: "VRef a \<in> reach h v" and a: "a < length h"
  from reach_step_children[OF r] nd have "VRef a = v"
    by (cases "h ! (case v of VRef b \<Rightarrow> b | _ \<Rightarrow> 0)") (auto simp: is_dict_iff is_list_iff)
  with nd a show "keys_ok (\<lambda>k. \<not> flagged k) (h ! a)"
    by (cases "h ! a") (auto simp: is_dict_iff is_list_iff)
qed

lemma stripped_node:
  assumes "a < length h" "keys_ok (\<lambda>k. \<not> flagged k) (h ! a)"
    and "\<And>y. y \<in> children (h ! a) \<Longrightarrow> stripped h y"
  shows "stripped h (VRef a)"
  unfolding stripped_def
proof (intro allI impI)
  fix b assume r: "VRef b \<in> reach h (VRef a)" and b: "b < length h"
  from reach_step_children[OF r] show "keys_ok (\<lambda>k. \<not> flagged k) (h ! b)"
  proof
    assume "VRef b = VRef a" with assms(2) show ?thesis by simp
  next
    assume "\<exists>a' y. VRef a = VRef a' \<and> a' < length h \<and> y \<in> children (h ! a') \<and> VRef b \<in> reach h y"
    then obtain y where "y \<in> children (h ! a)" "VRef b \<in> reach h y" by auto
    with assms(3)[of y] b show ?thesis by (auto simp: stripped_def)
  qed
qed

lemma map_of_dict_set [simp]: "map_of (dict_set k v d) = (map_of d)(k \<mapsto> v)"
  by (induction d) (auto simp: fun_eq_iff)

lemma map_of_dict_del [simp]: "map_of (dict_del k d) = (map_of d)(k := None)"
  by (induction d) (auto simp: fun_eq_iff)

lemma keys_dict_set [simp]: "fst ` set (dict_set k v d) = insert k (fst ` set d)"
  by (induction d) auto

lemma keys_dict_del [simp]: "fst ` set (dict_del k d) = fst ` set d - {k}"
  by (induction d) auto

lemma list_all_keys: "list_all p (map fst d) \<longleftrightarrow> (\<forall>k \<in> fst ` set d. p k)"
  by (auto simp: list_all_iff)

lemma set_item_dict:
  "a < length h \<Longrightarrow> h ! a = ODict d \<Longrightarrow> set_item h a k v = h[a := ODict (dict_set k v d)]"
  by (simp add: set_item_def get_obj_def)

lemma del_item_dict:
  "a < length h \<Longrightarrow> h ! a = ODict d \<Longrightarrow> del_item h a k = h[a := ODict (dict_del k d)]"
  by (simp add: del_item_def get_obj_def)

lemma sub_update:
  assumes a: "a < length h" "h ! a = ODict d"
    and ch: "ran (map_of d') \<subseteq> ran (map_of d)"
    and fl: "list_all (\<lambda>k. \<not> flagged k) (map fst d) \<Longrightarrow> list_all (\<lambda>k. \<not> flagged k) (map fst d')"
    and mi: "list_all mild_key (map fst d) \<Longrightarrow> list_all mild_key (map fst d')"
  shows "sub h (h[a := ODict d'])"
  unfolding sub_def
proof (intro conjI allI impI)
  fix b assume b: "b < length h"
  show "children (h[a := ODict d'] ! b) \<subseteq> children (h ! b)"
    using a b ch by (cases "b = a") (auto simp: children_def)
  show "same_kind (h ! b) (h[a := ODict d'] ! b)"
    using a b by (cases "b = a") (auto simp: same_kind_def)
  show "keys_ok (\<lambda>k. \<not> flagged k) (h[a := ODict d'] ! b)" if "keys_ok (\<lambda>k. \<not> flagged k) (h ! b)"
    using that a b fl by (cases "b = a") (auto simp: keys_ok_def)
  show "keys_ok mild_key (h[a := ODict d'] ! b)" if "keys_ok mild_key (h ! b)"
    using that a b mi by (cases "b = a") (auto simp: keys_ok_def)
qed simp

subsection \<open>Steps of the loop over the keys of a dict\<close>

lemma frame_ex_refl [simp]: "frame_ex lv l X h h"
  by (simp add: frame_ex_def)

lemma frame_ex_trans:
  "frame_ex lv l X h1 h2 \<Longrightarrow> frame_ex lv l X h2 h3 \<Longrightarrow> length h1 \<le> length h2 \<Longrightarrow> frame_ex lv l X h1 h3"
  by (simp add: frame_ex_def)

lemma frame_ex_weaken: "frame_ex lv l' X' h h' \<Longrightarrow> l \<le> l' \<Longrightarrow> X' \<subseteq> X \<Longrightarrow> frame_ex lv l X h h'"
  by (auto simp: frame_ex_def)

lemma frame_ex_drop: "frame_ex lv l X h h' \<Longrightarrow> (\<And>c. c \<in> X \<Longrightarrow> l \<le> lv c) \<Longrightarrow> frame_ex lv l Y h h'"
  unfolding frame_ex_def by (metis leD)

lemma frame_ex_update: "a \<in> X \<or> l \<le> lv a \<Longrightarrow> frame_ex lv l X h (h[a := ob])"
  unfolding frame_ex_def by (metis leD nth_list_update_neq)

lemma sub_length: "sub h h' \<Longrightarrow> length h' = length h"
  by (simp add: sub_def)

lemma flagged_drop: "flagged k \<Longrightarrow> drop 1 k \<noteq> k"
  by (cases k) (auto simp: flagged_def startswith_def)

text \<open>The renaming of a flagged key, and the storing back of the entry.\<close>

lemma rename_step:
  assumes a: "a < length h" "h ! a = ODict d" and e: "map_of d key0 = Some entry"
    and fl: "flagged key0"
  defines "d1 \<equiv> dict_del key0 (dict_set (drop 1 key0) entry d)"
  shows "del_item (set_item h a (drop 1 key0) entry) a key0 = h[a := ODict d1]"
    and "sub h (h[a := ODict d1])"
    and "map_of d1 = ((map_of d)(drop 1 key0 \<mapsto> entry))(key0 := None)"
proof -
  show eq: "del_item (set_item h a (drop 1 key0) entry) a key0 = h[a := ODict d1]"
    using a by (simp add: set_item_dict del_item_dict d1_def)
  show m: "map_of d1 = ((map_of d)(drop 1 key0 \<mapsto> entry))(key0 := None)"
    by (simp add: d1_def)
  have r: "ran (map_of d1) \<subseteq> ran (map_of d)"
    using e unfolding m by (auto simp: ran_def split: if_splits)
  show "sub h (h[a := ODict d1])"
  proof (rule sub_update[OF a r])
    assume "list_all (\<lambda>k. \<not> flagged k) (map fst d)"
    moreover from e have "key0 \<in> fst ` set d" by (metis fst_conv imageI map_of_SomeD)
    ultimately have False using fl by (auto simp: list_all_keys)
    then show "list_all (\<lambda>k. \<not> flagged k) (map fst d1)" ..
  next
    assume "list_all mild_key (map fst d)"
    moreover from e have "key0 \<in> fst ` set d" by (metis fst_conv imageI map_of_SomeD)
    ultimately show "list_all mild_key (map fst d1)"
      using fl by (auto simp: list_all_keys d1_def mild_key_def)
  qed
qed

lemma store_back:
  assumes a: "a < length h" "h ! a = ODict d" and e: "map_of d key = Some entry"
  shows "sub h (set_item h a key entry)"
    and "frame_ex lv l {a} h (set_item h a key entry)"
    and "get_dict (set_item h a key entry) (VRef a) = Some (dict_set key entry d)"
    and "map_of (dict_set key entry d) = map_of d"
proof -
  show m: "map_of (dict_set key entry d) = map_of d" using e by (auto simp: fun_eq_iff)
  from e have k: "key \<in> fst ` set d" by (metis fst_conv imageI map_of_SomeD)
  show "sub h (set_item h a key entry)"
    unfolding set_item_dict[OF a]
    by (rule sub_update[OF a]) (use m k in \<open>auto simp: list_all_keys insert_absorb\<close>)
  show "frame_ex lv l {a} h (set_item h a key entry)"
    unfolding set_item_dict[OF a] by (rule frame_ex_update) simp
  show "get_dict (set_item h a key entry) (VRef a) = Some (dict_set key entry d)"
    unfolding set_item_dict[OF a] using a by (simp add: get_dict_Some)
qed

lemma heap_mild_key:
  assumes "heap_mild h" "a < length h" "h ! a = ODict d" "k \<in> fst ` set d"
  shows "mild_key k"
proof -
  from assms(1,2) have "keys_ok mild_key (h ! a)" by (simp add: heap_mild_def list_all_length)
  with assms(3) have "list_all mild_key (map fst d)" by (simp add: keys_ok_def)
  with assms(4) show ?thesis by (auto simp: list_all_keys)
qed

lemma pre_step:
  assumes a: "a < length h" "h ! a = ODict d" and e: "map_of d key0 = Some entry"
    and key: "key = (if flagged key0 then drop 1 key0 else key0)"
    and h1: "h1 = (if flagged key0 then del_item (set_item h a key entry) a key0 else h)"
  shows "sub h h1" and "frame_ex lv l {a} h h1"
    and "\<exists>d1. h1 ! a = ODict d1 \<and> map_of d1 key = Some entry
            \<and> (\<forall>k y. k \<noteq> key \<longrightarrow> map_of d1 k = Some y \<longrightarrow> k \<noteq> key0 \<and> map_of d k = Some y)"
proof -
  show "sub h h1" using rename_step(1,2)[OF a e] key h1 by auto
  show "frame_ex lv l {a} h h1"
    using rename_step(1)[OF a e] key h1 by (auto intro: frame_ex_update)
  show "\<exists>d1. h1 ! a = ODict d1 \<and> map_of d1 key = Some entry
            \<and> (\<forall>k y. k \<noteq> key \<longrightarrow> map_of d1 k = Some y \<longrightarrow> k \<noteq> key0 \<and> map_of d k = Some y)"
  proof (cases "flagged key0")
    case True
    let ?d1 = "dict_del key0 (dict_set (drop 1 key0) entry d)"
    from rename_step(1,3)[OF a e True] True key h1 a
    have "h1 ! a = ODict ?d1" "map_of ?d1 = ((map_of d)(key \<mapsto> entry))(key0 := None)" by auto
    moreover from True key have "key \<noteq> key0" using flagged_drop[of key0] by simp
    ultimately show ?thesis by (intro exI[of _ ?d1]) (auto split: if_splits)
  next
    case False
    with key h1 a e show ?thesis by auto
  qed
qed

lemma key_step:
  assumes a: "a < length h" "h ! a = ODict d" and e: "map_of d key0 = Some entry"
    and key: "key = (if flagged key0 then drop 1 key0 else key0)"
    and h1: "h1 = (if flagged key0 then del_item (set_item h a key entry) a key0 else h)"
    and mid: "sub h1 h2" "frame_ex lv (Suc (lv a)) {} h1 h2" "heap_mild h \<longrightarrow> stripped h2 entry"
    and h3: "h3 = set_item h2 a key entry \<or> h3 = set_item (set_item h2 a key entry) a key entry"
  shows "sub h h3" and "frame_ex lv (Suc (lv a)) {a} h h3" and "is_dict h3 (VRef a)"
    and "heap_mild h \<Longrightarrow> done_keys a h (key0 # keys) \<Longrightarrow> done_keys a h3 keys"
proof -
  from pre_step(1)[OF a e key h1] pre_step(2)[OF a e key h1, of lv "Suc (lv a)"] pre_step(3)[OF a e key h1] obtain d1 where
    s1: "sub h h1" and f1: "frame_ex lv (Suc (lv a)) {a} h h1" and d1: "h1 ! a = ODict d1"
    and k1: "map_of d1 key = Some entry"
    and o1: "\<And>k y. k \<noteq> key \<Longrightarrow> map_of d1 k = Some y \<Longrightarrow> k \<noteq> key0 \<and> map_of d k = Some y"
    by blast
  have len: "length h1 = length h" "length h2 = length h" using s1 mid(1) by (simp_all add: sub_length)
  from mid(2) d1 a len have d2: "h2 ! a = ODict d1" by (simp add: frame_ex_def)
  have a2: "a < length h2" using a len by simp
  let ?h2' = "set_item h2 a key entry"
  note sb = store_back[OF a2 d2 k1]
  have d2': "?h2' ! a = ODict (dict_set key entry d1)" "a < length ?h2'"
    using sb(3) by (auto simp: get_dict_Some)
  have k2': "map_of (dict_set key entry d1) key = Some entry" by simp
  note sb' = store_back[OF d2'(2) d2'(1) k2']
  have s23: "sub h2 h3" using h3 sb(1) sb'(1) by (auto intro: sub_trans)
  have f23: "frame_ex lv (Suc (lv a)) {a} h2 h3"
    using h3 sb(2)[of lv "Suc (lv a)"] sb'(2)[of lv "Suc (lv a)"] sb(1)
    by (auto intro: frame_ex_trans simp: sub_length)
  obtain d3 where d3: "h3 ! a = ODict d3" "map_of d3 = map_of d1" "a < length h3"
    using h3 sb(3,4) sb'(3,4) by (auto simp: get_dict_Some)
  show s: "sub h h3" using s1 mid(1) s23 by (blast intro: sub_trans)
  have "frame_ex lv (Suc (lv a)) {a} h1 h2" using mid(2) by (rule frame_ex_weaken) simp_all
  with f1 f23 len show "frame_ex lv (Suc (lv a)) {a} h h3" by (metis frame_ex_trans order_refl)
  show "is_dict h3 (VRef a)" using d3 by (auto simp: is_dict_iff)
  show "done_keys a h3 keys" if m: "heap_mild h" and dk: "done_keys a h (key0 # keys)"
    unfolding done_keys_def
  proof (intro allI impI)
    fix k y assume "map_of (the (get_dict h3 (VRef a))) k = Some y"
    with d3 have ky: "map_of d1 k = Some y" by (simp add: get_dict_def get_obj_def)
    show "k \<in> set keys \<or> (\<not> flagged k \<and> stripped h3 y)"
    proof (cases "k = key")
      case True
      with ky k1 have "y = entry" by simp
      moreover have "stripped h3 entry" using mid(3) m s23 by (blast intro: stripped_sub)
      moreover have "\<not> flagged key"
      proof -
        from e have "key0 \<in> fst ` set d" by (metis fst_conv imageI map_of_SomeD)
        with m a have "mild_key key0" by (blast intro: heap_mild_key)
        then show ?thesis using key by (auto simp: mild_key_def)
      qed
      ultimately show ?thesis using True by simp
    next
      case False
      from o1[OF False ky] have "k \<noteq> key0" "map_of d k = Some y" by auto
      with dk a have "k \<in> set keys \<or> (\<not> flagged k \<and> stripped h y)"
        by (auto simp: done_keys_def get_dict_def get_obj_def)
      then show ?thesis using stripped_sub[OF _ s] by auto
    qed
  qed
qed

subsection \<open>What flag stripping does to the store\<close>

lemma ranked_child:
  "ranked lv N h \<Longrightarrow> a < length h \<Longrightarrow> VRef b \<in> children (h ! a) \<Longrightarrow> b < length h \<and> lv b = Suc (lv a)"
  by (simp add: ranked_def)

lemma sub_list: "sub h h' \<Longrightarrow> a < length h \<Longrightarrow> h ! a = OList xs \<Longrightarrow> h' ! a = OList xs"
  by (auto simp: sub_def same_kind_def dest!: spec[of _ a])

lemma sub_dict: "sub h h' \<Longrightarrow> a < length h \<Longrightarrow> h ! a = ODict d \<Longrightarrow> \<exists>d'. h' ! a = ODict d'"
  by (auto simp: sub_def same_kind_def dest!: spec[of _ a])

lemma stripped_list:
  assumes "a < length h" "h ! a = OList xs" "\<And>x. x \<in> set xs \<Longrightarrow> stripped h x"
  shows "stripped h (VRef a)"
  by (rule stripped_node) (use assms in \<open>auto simp: keys_ok_def children_def\<close>)

lemma stripped_dict:
  assumes "a < length h" "h ! a = ODict d" "done_keys a h []"
  shows "stripped h (VRef a)"
proof (rule stripped_node[OF assms(1)])
  from assms have dk: "\<And>k y. map_of d k = Some y \<Longrightarrow> \<not> flagged k \<and> stripped h y"
    by (auto simp: done_keys_def get_dict_def get_obj_def)
  show "keys_ok (\<lambda>k. \<not> flagged k) (h ! a)"
    unfolding assms(2) keys_ok_def
  proof (simp add: list_all_keys, intro ballI)
    fix p assume "p \<in> set d"
    then have "map_of d (fst p) \<noteq> None" by (metis domIff dom_map_of_conv_image_fst imageI)
    with dk show "\<not> flagged (fst p)" by auto
  qed
  show "stripped h y" if "y \<in> children (h ! a)" for y
    using that dk unfolding assms(2) by (auto simp: children_def ran_def)
qed

lemma strip_pc:
  "strip_flags n h v = Inr h' \<longrightarrow> ranked lv N h \<longrightarrow> (\<forall>b. v = VRef b \<longrightarrow> l \<le> Suc (lv b)) \<longrightarrow>
     sub h h' \<and> frame_ex lv l {b. v = VRef b} h h' \<and> (heap_mild h \<longrightarrow> stripped h' v)"
  "strip_items n h items = Inr h' \<longrightarrow> ranked lv N h \<longrightarrow> (\<forall>b. VRef b \<in> set items \<longrightarrow> l \<le> Suc (lv b)) \<longrightarrow>
     sub h h' \<and> frame_ex lv l {b. VRef b \<in> set items} h h' \<and> (heap_mild h \<longrightarrow> (\<forall>x. x \<in> set items \<longrightarrow> stripped h' x))"
  "strip_keys n h a keys = Inr h' \<longrightarrow> ranked lv N h \<longrightarrow> is_dict h (VRef a) \<longrightarrow> l \<le> Suc (lv a) \<longrightarrow>
     sub h h' \<and> frame_ex lv l {a} h h' \<and> (heap_mild h \<longrightarrow> done_keys a h keys \<longrightarrow> done_keys a h' [])"
proof (induction n h v and n h items and n h a keys arbitrary: h' l and h' l and h' l
       rule: strip_flags_strip_items_strip_keys.induct)
  case (1 h v)
  show ?case by simp
next
  case (2 n h v)
  show ?case
  proof (intro impI)
    assume run: "strip_flags (Suc n) h v = Inr h'" and rk: "ranked lv N h"
      and lv: "\<forall>b. v = VRef b \<longrightarrow> l \<le> Suc (lv b)"
    show "sub h h' \<and> frame_ex lv l {b. v = VRef b} h h' \<and> (heap_mild h \<longrightarrow> stripped h' v)"
    proof (cases "is_list h v")
      case True
      then obtain b xs where b: "v = VRef b" "b < length h" "h ! b = OList xs"
        by (auto simp: is_list_iff)
      then have gl: "get_list h v = Some xs" by (simp add: get_list_Some)
      from run True gl have r: "strip_items n h xs = Inr h'" by simp
      have xl: "\<forall>c. VRef c \<in> set xs \<longrightarrow> l \<le> lv c"
        using ranked_child[OF rk b(2)] b lv by (auto simp: children_def)
      with "2.IH"(1)[OF True, of h' l] r rk gl
      have s: "sub h h'" and f0: "frame_ex lv l {c. VRef c \<in> set xs} h h'"
        and st: "heap_mild h \<Longrightarrow> x \<in> set xs \<Longrightarrow> stripped h' x" for x by auto
      have f: "frame_ex lv l {b. v = VRef b} h h'"
        using f0 by (rule frame_ex_drop) (use xl in auto)
      have "stripped h' v" if "heap_mild h"
        unfolding b(1)
        by (rule stripped_list[OF _ sub_list[OF s b(2,3)]]) (use b s st that in \<open>auto simp: sub_length\<close>)
      with s f show ?thesis by simp
    next
      case False
      show ?thesis
      proof (cases "is_dict h v")
        case True
        then obtain b d where b: "v = VRef b" "b < length h" "h ! b = ODict d"
          by (auto simp: is_dict_iff)
        then have gd: "get_dict h v = Some d" by (simp add: get_dict_Some)
        from run True False gd b have r: "strip_keys n h b (map fst d) = Inr h'" by simp
        have dk: "done_keys b h (map fst d)"
          unfolding done_keys_def using b
          by (auto simp: get_dict_def get_obj_def dest!: map_of_SomeD intro: rev_image_eqI)
        from "2.IH"(2)[OF False True, of h' l] r rk gd b lv True dk
        have s: "sub h h'" and f: "frame_ex lv l {b. v = VRef b} h h'"
          and st: "heap_mild h \<Longrightarrow> done_keys b h' []" by auto
        from sub_dict[OF s b(2,3)] obtain d' where d': "h' ! b = ODict d'" ..
        have "stripped h' v" if "heap_mild h"
          unfolding b(1) by (rule stripped_dict[OF _ d' st[OF that]]) (use b s in \<open>simp add: sub_length\<close>)
        with s f show ?thesis by simp
      next
        case nd: False
        with run False have "h' = h" by simp
        with False nd show ?thesis by (simp add: stripped_leaf)
      qed
    qed
  qed
next
  case (3 n h)
  show ?case by simp
next
  case (4 n h item items)
  show ?case
  proof (intro impI)
    assume run: "strip_items n h (item # items) = Inr h'" and rk: "ranked lv N h"
      and lv: "\<forall>b. VRef b \<in> set (item # items) \<longrightarrow> l \<le> Suc (lv b)"
    show "sub h h' \<and> frame_ex lv l {b. VRef b \<in> set (item # items)} h h'
        \<and> (heap_mild h \<longrightarrow> (\<forall>x. x \<in> set (item # items) \<longrightarrow> stripped h' x))"
    proof (cases "is_list h item \<or> is_dict h item")
      case True
      with run obtain h1 where r1: "strip_flags n h item = Inr h1" and r2: "strip_items n h1 items = Inr h'"
        by (auto split: sum.splits)
      from "4.IH"(1)[OF True, of h1 l] r1 rk lv
      have s1: "sub h h1" and f1: "frame_ex lv l {b. item = VRef b} h h1"
        and st1: "heap_mild h \<Longrightarrow> stripped h1 item" by auto
      from "4.IH"(2)[OF True r1, of h' l] r2 ranked_sub[OF rk s1] lv
      have s2: "sub h1 h'" and f2: "frame_ex lv l {b. VRef b \<in> set items} h1 h'"
        and st2: "heap_mild h1 \<Longrightarrow> x \<in> set items \<Longrightarrow> stripped h' x" for x by auto
      have "sub h h'" using s1 s2 by (rule sub_trans)
      moreover have "frame_ex lv l {b. VRef b \<in> set (item # items)} h h'"
        by (rule frame_ex_trans[OF frame_ex_weaken[OF f1] frame_ex_weaken[OF f2]])
           (use s1 in \<open>auto simp: sub_length\<close>)
      moreover have "stripped h' x" if "heap_mild h" "x \<in> set (item # items)" for x
        using that st1 st2 heap_mild_sub[OF _ s1] stripped_sub[OF _ s2] by auto
      ultimately show ?thesis by simp
    next
      case False
      with run have r: "strip_items n h items = Inr h'" by simp
      from "4.IH"(3)[OF False, of h' l] r rk lv
      have s: "sub h h'" and f0: "frame_ex lv l {b. VRef b \<in> set items} h h'"
        and st: "heap_mild h \<Longrightarrow> x \<in> set items \<Longrightarrow> stripped h' x" for x by auto
      have f: "frame_ex lv l {b. VRef b \<in> set (item # items)} h h'"
        using f0 by (rule frame_ex_weaken) auto
      from False have "stripped h item" by (simp add: stripped_leaf)
      then have "stripped h' item" using s by (rule stripped_sub)
      with s f st show ?thesis by auto
    qed
  qed
next
  case (5 n h a)
  show ?case by simp
next
  case (6 n h a key0 keys)
  show ?case
  proof (intro impI)
    assume run: "strip_keys n h a (key0 # keys) = Inr h'" and rk: "ranked lv N h"
      and isd: "is_dict h (VRef a)" and l: "l \<le> Suc (lv a)"
    from isd obtain d where a: "a < length h" "h ! a = ODict d" by (auto simp: is_dict_iff)
    then have gd: "get_dict h (VRef a) = Some d" by (simp add: get_dict_Some)
    show "sub h h' \<and> frame_ex lv l {a} h h' \<and> (heap_mild h \<longrightarrow> done_keys a h (key0 # keys) \<longrightarrow> done_keys a h' [])"
    proof (cases "dict_has key0 d")
      case False
      with run gd have r: "strip_keys n h a keys = Inr h'" by simp
      from "6.IH"(1)[OF refl, of h' l] False gd r rk isd l
      have s: "sub h h'" and f: "frame_ex lv l {a} h h'"
        and st: "heap_mild h \<Longrightarrow> done_keys a h keys \<Longrightarrow> done_keys a h' []" by auto
      have "done_keys a h keys" if dk: "done_keys a h (key0 # keys)"
        unfolding done_keys_def
      proof (intro allI impI)
        fix k y assume "map_of (the (get_dict h (VRef a))) k = Some y"
        with gd have ky: "map_of d k = Some y" by simp
        with False have "k \<noteq> key0" by (auto simp: dict_has_def)
        moreover from dk ky gd have "k \<in> set (key0 # keys) \<or> (\<not> flagged k \<and> stripped h y)"
          unfolding done_keys_def by simp
        ultimately show "k \<in> set keys \<or> (\<not> flagged k \<and> stripped h y)" by auto
      qed
      with s f st show ?thesis by auto
    next
      case True
      then obtain entry where e: "map_of d key0 = Some entry" by (auto simp: dict_has_def)
      define key where "key = (if flagged key0 then drop 1 key0 else key0)"
      define h1 where "h1 = (if flagged key0 then del_item (set_item h a key entry) a key0 else h)"
      have step: "strip_keys n h a (key0 # keys) =
          (if is_dict h1 entry then
             (case strip_flags n h1 entry of
                Inl e \<Rightarrow> Inl e
              | Inr h2 \<Rightarrow> strip_keys n (set_item (set_item h2 a key entry) a key entry) a keys)
           else if is_list h1 entry then
             (case strip_items n h1 (the (get_list h1 entry)) of
                Inl e \<Rightarrow> Inl e
              | Inr h2 \<Rightarrow> strip_keys n (set_item h2 a key entry) a keys)
           else strip_keys n (set_item h1 a key entry) a keys)"
        using gd True e by (simp add: Let_def key_def h1_def cong: sum.case_cong if_cong)
      have nn: "\<not> \<not> dict_has key0 (the (get_dict h (VRef a)))" using True gd by simp
      have ee: "entry = the (map_of (the (get_dict h (VRef a))) key0)" using e gd by simp
      note ps = pre_step[OF a e key_def h1_def]
      have rk1: "ranked lv N h1" using rk ps(1) by (rule ranked_sub)
      have len1: "length h1 = length h" using ps(1) by (rule sub_length)
      have elv: "Suc (lv a) \<le> lv b \<and> b < length h" if "entry = VRef b" for b
      proof -
        from e that a have "VRef b \<in> children (h ! a)" by (auto simp: children_def ran_def)
        from ranked_child[OF rk a(1) this] show ?thesis by simp
      qed
      have fin: "sub h h' \<and> frame_ex lv l {a} h h' \<and> (heap_mild h \<longrightarrow> done_keys a h (key0 # keys) \<longrightarrow> done_keys a h' [])"
        if mid: "sub h1 h2" "frame_ex lv (Suc (lv a)) {} h1 h2" "heap_mild h \<longrightarrow> stripped h2 entry"
          and h3: "h3 = set_item h2 a key entry \<or> h3 = set_item (set_item h2 a key entry) a key entry"
          and r3: "strip_keys n h3 a keys = Inr h'"
          and ih: "\<forall>h' l. strip_keys n h3 a keys = Inr h' \<longrightarrow> ranked lv N h3 \<longrightarrow> is_dict h3 (VRef a) \<longrightarrow> l \<le> Suc (lv a) \<longrightarrow>
             sub h3 h' \<and> frame_ex lv l {a} h3 h' \<and> (heap_mild h3 \<longrightarrow> done_keys a h3 keys \<longrightarrow> done_keys a h' [])"
        for h2 h3
      proof -
        note ks = key_step[OF a e key_def h1_def mid h3]
        from ih r3 ranked_sub[OF rk ks(1)] ks(3) l
        have s: "sub h3 h'" and f: "frame_ex lv l {a} h3 h'"
          and st: "heap_mild h3 \<Longrightarrow> done_keys a h3 keys \<Longrightarrow> done_keys a h' []" by auto
        have "sub h h'" using ks(1) s by (rule sub_trans)
        moreover have "frame_ex lv l {a} h h'"
          by (rule frame_ex_trans[OF frame_ex_weaken[OF ks(2) l] f]) (use ks(1) in \<open>auto simp: sub_length\<close>)
        moreover have "done_keys a h' []" if "heap_mild h" "done_keys a h (key0 # keys)"
          using st heap_mild_sub[OF that(1) ks(1)] ks(4)[OF that] by blast
        ultimately show ?thesis by simp
      qed
      show ?thesis
      proof (cases "is_dict h1 entry")
        case isd1: True
        with run step obtain h2 where
          r2: "strip_flags n h1 entry = Inr h2"
          and r3: "strip_keys n (set_item (set_item h2 a key entry) a key entry) a keys = Inr h'"
          by (auto split: sum.splits)
        from "6.IH"(2)[OF refl nn ee[symmetric, THEN sym] key_def h1_def isd1, of h2 "Suc (lv a)"] r2 rk1 elv
        have mid0: "sub h1 h2" "frame_ex lv (Suc (lv a)) {b. entry = VRef b} h1 h2"
          "heap_mild h1 \<longrightarrow> stripped h2 entry" by auto
        have "frame_ex lv (Suc (lv a)) {} h1 h2"
          using mid0(2) by (rule frame_ex_drop) (use elv in auto)
        note mid = mid0(1) this mid0(3)
        have se: "heap_mild h \<longrightarrow> stripped h2 entry"
          using mid(3) heap_mild_sub[OF _ ps(1)] by blast
        show ?thesis
          by (rule fin[OF mid(1,2) se _ r3])
             (use "6.IH"(3)[OF refl nn ee[symmetric, THEN sym] key_def h1_def isd1 r2] in auto)
      next
        case nd1: False
        show ?thesis
        proof (cases "is_list h1 entry")
          case isl1: True
          then obtain b xs where b: "entry = VRef b" "b < length h1" "h1 ! b = OList xs"
            by (auto simp: is_list_iff)
          then have gl: "get_list h1 entry = Some xs" by (simp add: get_list_Some)
          from run step nd1 isl1 gl obtain h2 where
            r2: "strip_items n h1 xs = Inr h2"
            and r3: "strip_keys n (set_item h2 a key entry) a keys = Inr h'"
            by (auto split: sum.splits)
          have xlv: "\<forall>c. VRef c \<in> set xs \<longrightarrow> Suc (lv a) \<le> lv c"
            using ranked_child[OF rk1 b(2)] b elv[OF b(1)] by (auto simp: children_def)
          from "6.IH"(4)[OF refl nn ee[symmetric, THEN sym] key_def h1_def nd1 isl1, of h2 "Suc (lv a)"] r2 rk1 xlv gl
          have mid0: "sub h1 h2" "frame_ex lv (Suc (lv a)) {c. VRef c \<in> set xs} h1 h2"
            and st: "heap_mild h1 \<Longrightarrow> x \<in> set xs \<Longrightarrow> stripped h2 x" for x by auto
          have "frame_ex lv (Suc (lv a)) {} h1 h2"
            using mid0(2) by (rule frame_ex_drop) (use xlv in auto)
          note mid = mid0(1) this
          have "stripped h2 entry" if "heap_mild h"
            unfolding b(1)
            by (rule stripped_list[OF _ sub_list[OF mid(1) b(2,3)]])
               (use b mid(1) st heap_mild_sub[OF that ps(1)] in \<open>auto simp: sub_length\<close>)
          then have se: "heap_mild h \<longrightarrow> stripped h2 entry" by simp
          show ?thesis
            by (rule fin[OF mid(1,2) se _ r3])
               (use "6.IH"(5)[OF refl nn ee[symmetric, THEN sym] key_def h1_def nd1 isl1] r2 gl in auto)
        next
          case nl1: False
          from run step nd1 nl1 have
            r3: "strip_keys n (set_item h1 a key entry) a keys = Inr h'"
            by simp
          have se: "heap_mild h \<longrightarrow> stripped h1 entry" using nd1 nl1 by (simp add: stripped_leaf)
          show ?thesis
            by (rule fin[OF sub_refl frame_ex_refl se _ r3])
               (use "6.IH"(6)[OF refl nn ee[symmetric, THEN sym] key_def h1_def nd1 nl1] in auto)
        qed
      qed
    qed
  qed
qed

subsection \<open>What a merge does to the store\<close>

lemma ext_refl: "ranked lv N h \<Longrightarrow> ext lv N h lv h"
  by (simp add: ext_def)

lemma ext_trans: "ext lv N h lv1 h1 \<Longrightarrow> ext lv1 N h1 lv2 h2 \<Longrightarrow> ext lv N h lv2 h2"
  by (auto simp: ext_def)

lemma ext_sub: "ranked lv N h \<Longrightarrow> sub h h' \<Longrightarrow> ext lv N h lv h'"
  by (auto simp: ext_def sub_length intro: ranked_sub heap_mild_sub)

lemma ranked_update:
  assumes "ranked lv N h" "a < length h"
    and "\<And>b. VRef b \<in> children ob \<Longrightarrow> b < length h \<and> lv b = Suc (lv a)"
  shows "ranked lv N (h[a := ob])"
  unfolding ranked_def
proof (intro allI impI)
  fix c assume c: "c < length (h[a := ob])"
  show "lv c \<le> N \<and> (\<forall>b. VRef b \<in> children (h[a := ob] ! c) \<longrightarrow> b < length (h[a := ob]) \<and> lv b = Suc (lv c))"
  proof (cases "c = a")
    case True
    with assms c show ?thesis by (auto simp: ranked_def)
  next
    case False
    with assms(1) c show ?thesis by (auto simp: ranked_def)
  qed
qed

lemma ranked_alloc:
  assumes "ranked lv N h" "d \<le> N"
    and "\<And>b. VRef b \<in> children ob \<Longrightarrow> b < length h \<and> lv b = Suc d"
  shows "ranked (lv(length h := d)) N (h @ [ob])"
  unfolding ranked_def
proof (intro allI impI)
  fix c assume c: "c < length (h @ [ob])"
  show "(lv(length h := d)) c \<le> N \<and> (\<forall>b. VRef b \<in> children ((h @ [ob]) ! c) \<longrightarrow>
          b < length (h @ [ob]) \<and> (lv(length h := d)) b = Suc ((lv(length h := d)) c))"
  proof (cases "c = length h")
    case True
    have "b < length h \<and> lv b = Suc d \<and> b \<noteq> length h" if "VRef b \<in> children ob" for b
      using assms(3)[OF that] by auto
    with True assms(2) show ?thesis by (simp add: less_Suc_eq)
  next
    case False
    with c have c': "c < length h" by simp
    have "b < length h \<and> lv b = Suc (lv c) \<and> b \<noteq> length h" if "VRef b \<in> children (h ! c)" for b
      using ranked_child[OF assms(1) c' that] by auto
    moreover have "lv c \<le> N" using assms(1) c' by (simp add: ranked_def)
    ultimately show ?thesis using c' False by (simp add: nth_append less_Suc_eq)
  qed
qed

lemma heap_mild_update: "heap_mild h \<Longrightarrow> keys_ok mild_key ob \<Longrightarrow> heap_mild (h[a := ob])"
  unfolding heap_mild_def list_all_length
  by (cases "a < length h") (auto simp: nth_list_update)

lemma heap_mild_alloc: "heap_mild h \<Longrightarrow> keys_ok mild_key ob \<Longrightarrow> heap_mild (h @ [ob])"
  by (simp add: heap_mild_def)

lemma heap_mild_nth: "heap_mild h \<Longrightarrow> a < length h \<Longrightarrow> keys_ok mild_key (h ! a)"
  by (simp add: heap_mild_def list_all_length)

lemma append_new_pc:
  "append_new n h te items = Inr h' \<Longrightarrow> te < length h \<Longrightarrow> h ! te = OList xs \<Longrightarrow>
     \<exists>ys. h' = h[te := OList (xs @ ys)] \<and> set ys \<subseteq> set items"
proof (induction items arbitrary: h xs)
  case Nil
  then show ?case by (intro exI[of _ "[]"]) (simp add: list_update_same_conv[THEN iffD2])
next
  case (Cons item items)
  from Cons.prems have gl: "get_list h (VRef te) = Some xs" by (simp add: get_list_Some)
  show ?case
  proof (cases "py_in n h item xs")
    case None
    with Cons.prems gl show ?thesis by simp
  next
    case (Some b)
    show ?thesis
    proof (cases b)
      case True
      with Some Cons.prems gl have "append_new n h te items = Inr h'" by simp
      from Cons.IH[OF this Cons.prems(2,3)] show ?thesis by auto
    next
      case False
      let ?h1 = "h[te := OList (xs @ [item])]"
      from False Some Cons.prems gl have "append_new n ?h1 te items = Inr h'"
        by (simp add: append_item_def get_obj_def)
      from Cons.IH[OF this, of "xs @ [item]"] Cons.prems(2)
      obtain ys where "h' = ?h1[te := OList ((xs @ [item]) @ ys)]" "set ys \<subseteq> set items" by auto
      then show ?thesis by (intro exI[of _ "item # ys"]) auto
    qed
  qed
qed

lemma step_ok_trans:
  assumes "step_ok lv N h m lv1 h1" "step_ok lv1 N h1 m lv2 h2" "m < length h"
  shows "step_ok lv N h m lv2 h2"
proof -
  from assms have e: "ext lv N h lv1 h1" "ext lv1 N h1 lv2 h2"
    and f: "frame_ex lv (Suc (lv m)) {m} h h1" "frame_ex lv1 (Suc (lv1 m)) {m} h1 h2"
    and d: "\<exists>dm. h2 ! m = ODict dm" by (auto simp: step_ok_def)
  from e(1) assms(3) have m1: "lv1 m = lv m" and len: "length h \<le> length h1"
    and agree: "\<And>c. c < length h \<Longrightarrow> lv1 c = lv c" by (auto simp: ext_def)
  have "frame_ex lv (Suc (lv m)) {m} h h2"
    unfolding frame_ex_def
  proof (intro allI impI)
    fix c assume c: "c < length h" "lv c < Suc (lv m)" "c \<notin> {m}"
    with f(1) have "h1 ! c = h ! c" by (simp add: frame_ex_def)
    moreover from c f(2) len agree[OF c(1)] m1 have "h2 ! c = h1 ! c" by (simp add: frame_ex_def)
    ultimately show "h2 ! c = h ! c" by simp
  qed
  with ext_trans[OF e] d show ?thesis by (simp add: step_ok_def)
qed

lemma step_ok_refl: "ranked lv N h \<Longrightarrow> h ! m = ODict dm \<Longrightarrow> step_ok lv N h m lv h"
  by (simp add: step_ok_def ext_refl)

lemma mk_inv_step:
  assumes "mk_inv lv N h ta la m" "step_ok lv N h m lv' h'"
  shows "mk_inv lv' N h' ta la m"
proof -
  from assms(2) have e: "ext lv N h lv' h'" and f: "frame_ex lv (Suc (lv m)) {m} h h'"
    and d: "\<exists>dm. h' ! m = ODict dm" by (auto simp: step_ok_def)
  from assms(1) have i: "ta < length h" "la < length h" "m < length h" "lv la = lv ta" "lv m = lv ta"
    "m \<noteq> ta" "m \<noteq> la" "\<exists>dt. h ! ta = ODict dt" "\<exists>dl. h ! la = ODict dl"
    by (auto simp: mk_inv_def)
  from f i have "h' ! ta = h ! ta" "h' ! la = h ! la" by (auto simp: frame_ex_def)
  with e i d show ?thesis by (auto simp: mk_inv_def ext_def)
qed

lemma set_m:
  assumes rk: "ranked lv N h" and m: "m < length h" "h ! m = ODict dm"
    and v: "\<And>b. v = VRef b \<Longrightarrow> b < length h \<and> lv b = Suc (lv m)"
    and k: "heap_mild h \<longrightarrow> mild_key key"
  shows "step_ok lv N h m lv (set_item h m key v)"
proof -
  have eq: "set_item h m key v = h[m := ODict (dict_set key v dm)]" using m by (rule set_item_dict)
  have ch: "children (ODict (dict_set key v dm)) \<subseteq> insert v (children (ODict dm))"
    by (auto simp: children_def ran_def split: if_splits)
  have "ranked lv N (h[m := ODict (dict_set key v dm)])"
  proof (rule ranked_update[OF rk m(1)])
    fix b assume "VRef b \<in> children (ODict (dict_set key v dm))"
    with ch have "VRef b = v \<or> VRef b \<in> children (h ! m)" using m by auto
    then show "b < length h \<and> lv b = Suc (lv m)"
      using v[of b] ranked_child[OF rk m(1), of b] by auto
  qed
  moreover have "heap_mild (h[m := ODict (dict_set key v dm)])" if hm: "heap_mild h"
  proof (rule heap_mild_update[OF hm])
    from heap_mild_nth[OF hm m(1)] m k hm
    show "keys_ok mild_key (ODict (dict_set key v dm))" by (auto simp: keys_ok_def list_all_keys)
  qed
  moreover have "frame_ex lv (Suc (lv m)) {m} h (h[m := ODict (dict_set key v dm)])"
    by (rule frame_ex_update) simp
  ultimately show ?thesis using m unfolding eq by (simp add: step_ok_def ext_def)
qed

lemma del_m:
  assumes rk: "ranked lv N h" and m: "m < length h" "h ! m = ODict dm"
  shows "step_ok lv N h m lv (del_item h m k)"
proof -
  have eq: "del_item h m k = h[m := ODict (dict_del k dm)]" using m by (rule del_item_dict)
  have "sub h (h[m := ODict (dict_del k dm)])"
    by (rule sub_update[OF m]) (auto simp: ran_def list_all_keys split: if_splits)
  from ext_sub[OF rk this] frame_ex_update[of m "{m}"] m show ?thesis
    unfolding eq by (simp add: step_ok_def)
qed

lemma is_key_in_True:
  "is_key_in dt key = (True, flag) \<Longrightarrow> \<exists>entry_t. map_of dt (flag @ key) = Some entry_t"
  by (auto simp: is_key_in_def dict_has_def split: if_splits)

lemma mild_canonical: "mild_key key0 \<Longrightarrow> mild_key (if startswith key0 ''!'' then drop 1 key0 else key0)"
  by (auto simp: mild_key_def flagged_def)

lemma map_of_key_in: "map_of d k = Some y \<Longrightarrow> k \<in> fst ` set d"
  by (metis fst_conv imageI map_of_SomeD)

lemma merge_key_pc:
  assumes IH: "\<forall>h t l h' mv lv. merge_settings n h t l = Inr (h', mv) \<longrightarrow> ranked lv N h \<longrightarrow>
        (\<forall>ta la. t = VRef ta \<longrightarrow> l = VRef la \<longrightarrow> lv la = lv ta) \<longrightarrow> ms_post lv N h t h' mv"
    and run: "merge_key n h (VRef ta) (VRef la) m key0 = Inr h'"
    and inv: "mk_inv lv N h ta la m"
  shows "\<exists>lv'. step_ok lv N h m lv' h'"
proof -
  from inv obtain dt dl dm where
    rk: "ranked lv N h" and ta: "ta < length h" "h ! ta = ODict dt"
    and la: "la < length h" "h ! la = ODict dl" and m: "m < length h" "h ! m = ODict dm"
    and lvs: "lv la = lv ta" "lv m = lv ta" and ne: "m \<noteq> ta" "m \<noteq> la"
    by (auto simp: mk_inv_def)
  have gt: "get_dict h (VRef ta) = Some dt" and gl: "get_dict h (VRef la) = Some dl"
    and gm: "get_dict h (VRef m) = Some dm"
    using ta la m by (simp_all add: get_dict_Some)
  define local_stomps where "local_stomps = startswith key0 ''!''"
  define key where "key = (if local_stomps then drop 1 key0 else key0)"
  from run gl obtain entry_l where el: "map_of dl key0 = Some entry_l"
    by (cases "map_of dl key0") (simp_all add: Let_def)
  obtain ex flag where ik: "is_key_in dt key = (ex, flag)" by (cases "is_key_in dt key")
  have mk: "heap_mild h \<longrightarrow> mild_key key"
    using heap_mild_key[OF _ la map_of_key_in[OF el]] mild_canonical[of key0]
    by (auto simp: key_def local_stomps_def)
  have lvl: "b < length h \<and> lv b = Suc (lv m)" if "entry_l = VRef b" for b
  proof -
    from el that la have "VRef b \<in> children (h ! la)" by (auto simp: children_def ran_def)
    from ranked_child[OF rk la(1) this] lvs show ?thesis by simp
  qed
  note sl = set_m[OF rk m lvl mk]
  show ?thesis
  proof (cases ex)
    case False
    with run gl gt el ik have "h' = set_item h m key entry_l"
      by (simp add: Let_def key_def local_stomps_def)
    with sl show ?thesis by blast
  next
    case True
    define local_key where "local_key = flag @ key"
    from ik True have "is_key_in dt key = (True, flag)" by simp
    from is_key_in_True[OF this] obtain entry_t where
      et: "map_of dt local_key = Some entry_t" by (auto simp: local_key_def)
    have lvt: "b < length h \<and> lv b = Suc (lv m)" if "entry_t = VRef b" for b
    proof -
      from et that ta have "VRef b \<in> children (h ! ta)" by (auto simp: children_def ran_def)
      from ranked_child[OF rk ta(1) this] lvs show ?thesis by simp
    qed
    define r where "r = (if local_stomps then Inr (set_item h m key entry_l)
        else if is_dict h entry_t \<and> is_dict h entry_l then
          (case merge_settings n h entry_t entry_l of
             Inl e \<Rightarrow> Inl e
           | Inr (h', merged') \<Rightarrow> Inr (set_item h' m key merged'))
        else if is_list h entry_t \<and> is_list h entry_l then
          (if \<not> local_stomps \<and> flag = ''+'' then
             (case append_new n h (case entry_t of VRef t \<Rightarrow> t | _ \<Rightarrow> 0) (the (get_list h entry_l)) of
                Inl e \<Rightarrow> Inl e
              | Inr h' \<Rightarrow> Inr (set_item h' m key entry_t))
           else Inr (set_item h m key entry_l))
        else Inr (set_item h m key entry_l))"
    have ik': "is_key_in dt (if startswith key0 ''!'' then drop 1 key0 else key0) = (True, flag)"
      using ik True by (simp add: key_def local_stomps_def)
    have run': "(case r of Inl e \<Rightarrow> Inl e
        | Inr h1 \<Rightarrow> Inr (if flag \<noteq> [] \<and> dict_has local_key (the (get_dict h1 (VRef m)))
                         then del_item h1 m local_key else h1)) = Inr h'"
      using run
      unfolding merge_key.simps Let_def r_def local_key_def key_def local_stomps_def
        gl gt option.sel el option.case ik' prod.case bool.case
        et[unfolded local_key_def key_def local_stomps_def]
      by simp
    then obtain h1 where r1: "r = Inr h1"
      and h': "h' = (if flag \<noteq> [] \<and> dict_has local_key (the (get_dict h1 (VRef m)))
                         then del_item h1 m local_key else h1)"
      by (cases r) auto
    have "\<exists>lv1. step_ok lv N h m lv1 h1"
    proof (cases "local_stomps")
      case True
      with r1 sl show ?thesis by (auto simp: r_def)
    next
      case ns: False
      show ?thesis
      proof (cases "is_dict h entry_t \<and> is_dict h entry_l")
        case True
        with ns r1 obtain h2 mv where ms: "merge_settings n h entry_t entry_l = Inr (h2, mv)"
          and h1: "h1 = set_item h2 m key mv"
          by (auto simp: r_def split: sum.splits)
        from True obtain te le where tl: "entry_t = VRef te" "entry_l = VRef le"
          by (auto simp: is_dict_iff)
        have "\<forall>ta la. entry_t = VRef ta \<longrightarrow> entry_l = VRef la \<longrightarrow> lv la = lv ta"
          using lvt lvl by auto
        with IH ms rk have "ms_post lv N h entry_t h2 mv" by blast
        with tl obtain lv1 m' where
          p: "mv = VRef m'" "length h \<le> m'" "m' < length h2" "lv1 m' = lv te"
          "ext lv N h lv1 h2" "frame_ex lv (Suc (lv te)) {} h h2"
          by (auto simp: ms_post_def)
        from lvt[OF tl(1)] have te: "lv te = Suc (lv m)" by simp
        from p(5) m have rk2: "ranked lv1 N h2" and m2: "m < length h2" and lm: "lv1 m = lv m"
          and hm2: "heap_mild h \<Longrightarrow> heap_mild h2"
          by (auto simp: ext_def)
        from p(6) m te have dm2: "h2 ! m = ODict dm" by (simp add: frame_ex_def)
        have mk2: "heap_mild h2 \<longrightarrow> mild_key key"
        proof
          assume "heap_mild h2"
          from p(6) la lvs te have "h2 ! la = ODict dl" by (simp add: frame_ex_def)
          from heap_mild_key[OF \<open>heap_mild h2\<close> _ this map_of_key_in[OF el]] la p(5)
          have "mild_key key0" by (auto simp: ext_def)
          then show "mild_key key" using mild_canonical[of key0] by (simp add: key_def local_stomps_def)
        qed
        have "step_ok lv1 N h2 m lv1 (set_item h2 m key mv)"
          by (rule set_m[OF rk2 m2 dm2 _ mk2]) (use p te lm in auto)
        moreover have "step_ok lv N h m lv1 h2"
          unfolding step_ok_def
          using p(5) dm2 frame_ex_weaken[OF p(6), of "Suc (lv m)" "{m}"] te by auto
        ultimately show ?thesis using h1 step_ok_trans[OF _ _ m(1)] by blast
      next
        case nd: False
        show ?thesis
        proof (cases "is_list h entry_t \<and> is_list h entry_l \<and> flag = ''+''")
          case True
          then obtain te xt le xl where tl: "entry_t = VRef te" "te < length h" "h ! te = OList xt"
            "entry_l = VRef le" "le < length h" "h ! le = OList xl"
            by (auto simp: is_list_iff)
          then have gll: "get_list h entry_l = Some xl" by (simp add: get_list_Some)
          from True ns nd r1 tl gll obtain h2 where an: "append_new n h te xl = Inr h2"
            and h1: "h1 = set_item h2 m key entry_t"
            by (auto simp: r_def split: sum.splits)
          from append_new_pc[OF an tl(2,3)] obtain ys where
            h2: "h2 = h[te := OList (xt @ ys)]" and ys: "set ys \<subseteq> set xl" by auto
          from lvt[OF tl(1)] lvl[OF tl(4)] have te: "lv te = Suc (lv m)" "lv le = Suc (lv m)" by simp_all
          have rk2: "ranked lv N h2"
            unfolding h2
          proof (rule ranked_update[OF rk tl(2)])
            fix b assume "VRef b \<in> children (OList (xt @ ys))"
            then have "VRef b \<in> children (h ! te) \<or> VRef b \<in> children (h ! le)"
              using ys tl by (auto simp: children_def)
            then show "b < length h \<and> lv b = Suc (lv te)"
              using ranked_child[OF rk tl(2), of b] ranked_child[OF rk tl(5), of b] te by auto
          qed
          have hm2: "heap_mild h \<longrightarrow> heap_mild h2"
            unfolding h2 by (auto intro: heap_mild_update simp: keys_ok_def)
          have tem: "te \<noteq> m" using te by auto
          have s1: "step_ok lv N h m lv h2"
            unfolding step_ok_def ext_def
            using rk2 hm2 m tem te by (auto simp: h2 intro!: frame_ex_update)
          have m2: "m < length h2" "h2 ! m = ODict dm" using m tem by (auto simp: h2)
          have mk2: "heap_mild h2 \<longrightarrow> mild_key key"
          proof
            assume "heap_mild h2"
            have "h2 ! la = ODict dl" "la < length h2" using la tl by (auto simp: h2 nth_list_update)
            from heap_mild_key[OF \<open>heap_mild h2\<close> this(2,1) map_of_key_in[OF el]]
            show "mild_key key" using mild_canonical[of key0] by (simp add: key_def local_stomps_def)
          qed
          have "step_ok lv N h2 m lv (set_item h2 m key entry_t)"
            by (rule set_m[OF rk2 m2 _ mk2]) (use lvt in \<open>auto simp: h2\<close>)
          with s1 h1 show ?thesis using step_ok_trans[OF _ _ m(1)] by blast
        next
          case False
          with ns nd r1 have "h1 = set_item h m key entry_l"
            by (auto simp: r_def split: if_splits)
          with sl show ?thesis by blast
        qed
      qed
    qed
    then obtain lv1 where s1: "step_ok lv N h m lv1 h1" ..
    then obtain dm1 where d1: "h1 ! m = ODict dm1" and rk1: "ranked lv1 N h1" and m1: "m < length h1"
      using m by (auto simp: step_ok_def ext_def)
    have "step_ok lv1 N h1 m lv1 h'"
      unfolding h' using del_m[OF rk1 m1 d1] step_ok_refl[OF rk1 d1] by simp
    with s1 show ?thesis using step_ok_trans[OF _ _ m(1)] by blast
  qed
qed

lemma merge_keys_pc:
  assumes IH: "\<forall>h t l h' mv lv. merge_settings n h t l = Inr (h', mv) \<longrightarrow> ranked lv N h \<longrightarrow>
        (\<forall>ta la. t = VRef ta \<longrightarrow> l = VRef la \<longrightarrow> lv la = lv ta) \<longrightarrow> ms_post lv N h t h' mv"
  shows "merge_keys n h (VRef ta) (VRef la) m keys = Inr h' \<Longrightarrow> mk_inv lv N h ta la m \<Longrightarrow>
     \<exists>lv'. step_ok lv N h m lv' h'"
proof (induction keys arbitrary: h lv)
  case Nil
  then show ?case by (auto simp: mk_inv_def intro: step_ok_refl)
next
  case (Cons key0 keys)
  from Cons.prems(1) obtain h1 where k: "merge_key n h (VRef ta) (VRef la) m key0 = Inr h1"
    and r: "merge_keys n h1 (VRef ta) (VRef la) m keys = Inr h'"
    by (auto split: sum.splits)
  from merge_key_pc[OF IH k Cons.prems(2)] obtain lv1 where s1: "step_ok lv N h m lv1 h1" by blast
  from Cons.IH[OF r mk_inv_step[OF Cons.prems(2) s1]] obtain lv2 where "step_ok lv1 N h1 m lv2 h'" ..
  moreover from Cons.prems(2) have "m < length h" by (simp add: mk_inv_def)
  ultimately show ?case using s1 by (blast intro: step_ok_trans)
qed

lemma merge_settings_pc:
  "merge_settings n h t l = Inr (h', mv) \<Longrightarrow> ranked lv N h \<Longrightarrow>
     (\<forall>ta la. t = VRef ta \<longrightarrow> l = VRef la \<longrightarrow> lv la = lv ta) \<Longrightarrow> ms_post lv N h t h' mv"
proof (induction n arbitrary: h t l h' mv lv)
  case 0
  then show ?case by simp
next
  case (Suc n)
  note run = Suc.prems(1) and rk = Suc.prems(2)
  from run have isd: "is_dict h t" "is_dict h l" by (auto split: if_splits)
  then obtain ta dt la dl where t: "t = VRef ta" "ta < length h" "h ! ta = ODict dt"
    and l: "l = VRef la" "la < length h" "h ! la = ODict dl"
    by (auto simp: is_dict_iff)
  with Suc.prems(3) have lvs: "lv la = lv ta" by simp
  define m where "m = length h"
  define h1 where "h1 = h @ [ODict dt]"
  define lv1 where "lv1 = lv(m := lv ta)"
  have gt: "get_dict h t = Some dt" using t by (simp add: get_dict_Some)
  have gl1: "get_dict h1 l = Some dl" using l by (simp add: get_dict_Some h1_def nth_append)
  from run isd gt gl1 obtain h2 where
    mk: "merge_keys n h1 t l m (map fst dl) = Inr h2"
    and sf: "strip_flags n h2 (VRef m) = Inr h'" and mv: "mv = VRef m"
    by (auto simp: alloc_def h1_def m_def split: sum.splits)
  have rk1: "ranked lv1 N h1"
    unfolding lv1_def h1_def m_def
  proof (rule ranked_alloc[OF rk])
    show "lv ta \<le> N" using rk t by (simp add: ranked_def)
    fix b assume "VRef b \<in> children (ODict dt)"
    with ranked_child[OF rk t(2), of b] t show "b < length h \<and> lv b = Suc (lv ta)" by simp
  qed
  have inv1: "mk_inv lv1 N h1 ta la m"
    unfolding mk_inv_def using rk1 t l lvs
    by (auto simp: h1_def m_def lv1_def nth_append)
  have IH': "\<forall>h t l h' mv lv. merge_settings n h t l = Inr (h', mv) \<longrightarrow> ranked lv N h \<longrightarrow>
        (\<forall>ta la. t = VRef ta \<longrightarrow> l = VRef la \<longrightarrow> lv la = lv ta) \<longrightarrow> ms_post lv N h t h' mv"
    using Suc.IH by blast
  from merge_keys_pc[OF IH' mk[unfolded t l] inv1] obtain lv2 where
    s2: "step_ok lv1 N h1 m lv2 h2" by blast
  then have e2: "ext lv1 N h1 lv2 h2" and f2: "frame_ex lv1 (Suc (lv1 m)) {m} h1 h2"
    and d2: "\<exists>dm. h2 ! m = ODict dm" by (auto simp: step_ok_def)
  from e2 have rk2: "ranked lv2 N h2" and len2: "length h1 \<le> length h2"
    and ag2: "\<And>c. c < length h1 \<Longrightarrow> lv2 c = lv1 c" by (auto simp: ext_def)
  have m1: "m < length h1" by (simp add: h1_def m_def)
  from strip_pc(1)[of n h2 "VRef m" h' lv2 N "Suc (lv2 m)"] sf rk2
  have s3: "sub h2 h'" and f3: "frame_ex lv2 (Suc (lv2 m)) {m} h2 h'"
    and st: "heap_mild h2 \<longrightarrow> stripped h' (VRef m)" by auto
  have lm: "lv2 m = lv ta" using ag2[OF m1] by (simp add: lv1_def)
  have len3: "length h' = length h2" using s3 by (rule sub_length)
  have hm: "heap_mild h2" if "heap_mild h"
  proof -
    from heap_mild_nth[OF that t(2)] t have "keys_ok mild_key (ODict dt)" by simp
    with that have "heap_mild h1" unfolding h1_def by (rule heap_mild_alloc)
    with e2 show ?thesis by (simp add: ext_def)
  qed
  have "ext lv N h lv2 h'"
    unfolding ext_def
  proof (intro conjI allI impI)
    show "length h \<le> length h'" using len2 len3 by (simp add: h1_def)
    show "lv2 c = lv c" if "c < length h" for c
      using ag2[of c] that by (simp add: h1_def lv1_def m_def)
    show "ranked lv2 N h'" using rk2 s3 by (rule ranked_sub)
    show "heap_mild h'" if "heap_mild h" using heap_mild_sub[OF hm[OF that] s3] .
  qed
  moreover have "frame_ex lv (Suc (lv ta)) {} h h'"
    unfolding frame_ex_def
  proof (intro allI impI)
    fix c assume c: "c < length h" "lv c < Suc (lv ta)" "c \<notin> {}"
    then have cm: "c \<noteq> m" "c < length h1" "lv1 c = lv c" "lv1 m = lv ta"
      by (auto simp: m_def h1_def lv1_def)
    with f2 c have "h2 ! c = h1 ! c" by (simp add: frame_ex_def)
    moreover from f3 cm c len2 ag2[OF cm(2)] lm have "h' ! c = h2 ! c" by (simp add: frame_ex_def)
    moreover have "h1 ! c = h ! c" using c by (simp add: h1_def nth_append)
    ultimately show "h' ! c = h ! c" by simp
  qed
  moreover from d2 obtain dm2 where "h2 ! m = ODict dm2" ..
  with sub_dict[OF s3 _ this] m1 len2 have "\<exists>dm. h' ! m = ODict dm" by simp
  moreover have "heap_mild h \<longrightarrow> stripped h' mv" using st hm mv by simp
  ultimately show ?case
    unfolding ms_post_def using mv t lm m1 len2 len3
    by (intro exI[of _ lv2] exI[of _ m] exI[of _ ta]) (simp add: m_def)
qed

subsection \<open>The store of two parsed documents\<close>

lemma loaded_refl: "ranked lv N h \<Longrightarrow> loaded lv N h lv h"
  by (simp add: loaded_def)

lemma loaded_trans: "loaded lv N h lv1 h1 \<Longrightarrow> loaded lv1 N h1 lv2 h2 \<Longrightarrow> loaded lv N h lv2 h2"
  unfolding loaded_def by auto

lemma loaded_alloc:
  assumes rk: "ranked lv N h" and d: "d \<le> N"
    and ch: "\<And>b. VRef b \<in> children ob \<Longrightarrow> b < length h \<and> lv b = Suc d"
  shows "loaded lv N h (lv(length h := d)) (h @ [ob])"
  unfolding loaded_def
  using ranked_alloc[OF rk d ch] by (auto simp: nth_append)

lemma children_dict: "children (ODict dd) \<subseteq> snd ` set dd"
  by (auto simp: children_def ran_def dest!: map_of_SomeD intro: rev_image_eqI)

lemma values_dict_set: "snd ` set (dict_set k v d) \<subseteq> insert v (snd ` set d)"
  by (induction d) auto

lemma load_pc:
  "load h t = (h', v) \<longrightarrow> ranked lv N h \<longrightarrow> d + height t \<le> N \<longrightarrow>
     (\<exists>lv'. loaded lv N h lv' h' \<and> (\<forall>b. v = VRef b \<longrightarrow> b < length h' \<and> lv' b = d)
        \<and> (all_keys mild_key t \<longrightarrow> heap_mild h \<longrightarrow> heap_mild h'))"
  "load_list h ns = (h', vs) \<longrightarrow> ranked lv N h \<longrightarrow> d + height_list ns \<le> N \<longrightarrow>
     (\<exists>lv'. loaded lv N h lv' h' \<and> (\<forall>b. VRef b \<in> set vs \<longrightarrow> b < length h' \<and> lv' b = d)
        \<and> (all_keys_list mild_key ns \<longrightarrow> heap_mild h \<longrightarrow> heap_mild h'))"
  "load_dict h kns acc = (h', dd) \<longrightarrow> ranked lv N h \<longrightarrow> d + height_dict kns \<le> N \<longrightarrow>
     (\<forall>b. VRef b \<in> snd ` set acc \<longrightarrow> b < length h \<and> lv b = d) \<longrightarrow>
     (\<exists>lv'. loaded lv N h lv' h' \<and> (\<forall>b. VRef b \<in> snd ` set dd \<longrightarrow> b < length h' \<and> lv' b = d)
        \<and> (all_keys_dict mild_key kns \<longrightarrow> list_all mild_key (map fst acc) \<longrightarrow> heap_mild h \<longrightarrow>
              heap_mild h' \<and> list_all mild_key (map fst dd)))"
proof (induction h t and h ns and h kns acc arbitrary: h' v lv d and h' vs lv d and h' dd lv d
       rule: load_load_list_load_dict.induct)
  case (5 h ns)
  show ?case
  proof (intro impI)
    assume run: "load h (Seq ns) = (h', v)" and rk: "ranked lv N h" and dh: "d + height (Seq ns) \<le> N"
    obtain h1 vs where ll: "load_list h ns = (h1, vs)" by (cases "load_list h ns")
    with run have h': "h' = h1 @ [OList vs]" and v: "v = VRef (length h1)" by (auto simp: alloc_def)
    from "5.IH"[of h1 vs lv "Suc d"] ll rk dh obtain lv1 where
      l1: "loaded lv N h lv1 h1" and ch: "\<And>b. VRef b \<in> set vs \<Longrightarrow> b < length h1 \<and> lv1 b = Suc d"
      and hm: "all_keys_list mild_key ns \<longrightarrow> heap_mild h \<longrightarrow> heap_mild h1" by auto
    from l1 have rk1: "ranked lv1 N h1" by (simp add: loaded_def)
    have "loaded lv1 N h1 (lv1(length h1 := d)) (h1 @ [OList vs])"
      by (rule loaded_alloc[OF rk1]) (use dh ch in \<open>auto simp: children_def\<close>)
    with l1 have "loaded lv N h (lv1(length h1 := d)) h'" unfolding h' by (rule loaded_trans)
    moreover have "heap_mild h'" if "all_keys mild_key (Seq ns)" "heap_mild h"
      unfolding h' using that hm by (auto intro: heap_mild_alloc simp: keys_ok_def)
    ultimately show "\<exists>lv'. loaded lv N h lv' h' \<and> (\<forall>b. v = VRef b \<longrightarrow> b < length h' \<and> lv' b = d)
        \<and> (all_keys mild_key (Seq ns) \<longrightarrow> heap_mild h \<longrightarrow> heap_mild h')"
      using v h' by (intro exI[of _ "lv1(length h1 := d)"]) auto
  qed
next
  case (6 h kns)
  show ?case
  proof (intro impI)
    assume run: "load h (Mapping kns) = (h', v)" and rk: "ranked lv N h"
      and dh: "d + height (Mapping kns) \<le> N"
    obtain h1 dd where ll: "load_dict h kns [] = (h1, dd)" by (cases "load_dict h kns []")
    with run have h': "h' = h1 @ [ODict dd]" and v: "v = VRef (length h1)" by (auto simp: alloc_def)
    from "6.IH"[of h1 dd lv "Suc d"] ll rk dh obtain lv1 where
      l1: "loaded lv N h lv1 h1" and ch: "\<And>b. VRef b \<in> snd ` set dd \<Longrightarrow> b < length h1 \<and> lv1 b = Suc d"
      and hm: "all_keys_dict mild_key kns \<longrightarrow> heap_mild h \<longrightarrow> heap_mild h1 \<and> list_all mild_key (map fst dd)"
      by auto
    from l1 have rk1: "ranked lv1 N h1" by (simp add: loaded_def)
    have "loaded lv1 N h1 (lv1(length h1 := d)) (h1 @ [ODict dd])"
    proof (rule loaded_alloc[OF rk1])
      show "d \<le> N" using dh by simp
      show "b < length h1 \<and> lv1 b = Suc d" if "VRef b \<in> children (ODict dd)" for b
        using that children_dict[of dd] ch by blast
    qed
    with l1 have "loaded lv N h (lv1(length h1 := d)) h'" unfolding h' by (rule loaded_trans)
    moreover have "heap_mild h'" if "all_keys mild_key (Mapping kns)" "heap_mild h"
      unfolding h' using that hm by (auto intro: heap_mild_alloc simp: keys_ok_def)
    ultimately show "\<exists>lv'. loaded lv N h lv' h' \<and> (\<forall>b. v = VRef b \<longrightarrow> b < length h' \<and> lv' b = d)
        \<and> (all_keys mild_key (Mapping kns) \<longrightarrow> heap_mild h \<longrightarrow> heap_mild h')"
      using v h' by (intro exI[of _ "lv1(length h1 := d)"]) auto
  qed
next
  case (8 h n ns)
  show ?case
  proof (intro impI)
    assume run: "load_list h (n # ns) = (h', vs)" and rk: "ranked lv N h"
      and dh: "d + height_list (n # ns) \<le> N"
    obtain h1 v1 where l1: "load h n = (h1, v1)" by (cases "load h n")
    obtain h2 vs2 where l2: "load_list h1 ns = (h2, vs2)" by (cases "load_list h1 ns")
    from run l1 l2 have h': "h' = h2" and vs: "vs = v1 # vs2" by auto
    from "8.IH"(1)[of h1 v1 lv d] l1 rk dh obtain lv1 where
      a1: "loaded lv N h lv1 h1" and b1: "\<And>b. v1 = VRef b \<Longrightarrow> b < length h1 \<and> lv1 b = d"
      and m1: "all_keys mild_key n \<longrightarrow> heap_mild h \<longrightarrow> heap_mild h1" by auto
    from a1 have rk1: "ranked lv1 N h1" by (simp add: loaded_def)
    from "8.IH"(2)[OF l1[symmetric], of h2 vs2 lv1 d] l2 rk1 dh obtain lv2 where
      a2: "loaded lv1 N h1 lv2 h2" and b2: "\<And>b. VRef b \<in> set vs2 \<Longrightarrow> b < length h2 \<and> lv2 b = d"
      and m2: "all_keys_list mild_key ns \<longrightarrow> heap_mild h1 \<longrightarrow> heap_mild h2" by auto
    have "b < length h2 \<and> lv2 b = d" if "VRef b \<in> set vs" for b
      using that vs b1[of b] b2[of b] a2 by (auto simp: loaded_def)
    with loaded_trans[OF a1 a2] m1 m2 h'
    show "\<exists>lv'. loaded lv N h lv' h' \<and> (\<forall>b. VRef b \<in> set vs \<longrightarrow> b < length h' \<and> lv' b = d)
        \<and> (all_keys_list mild_key (n # ns) \<longrightarrow> heap_mild h \<longrightarrow> heap_mild h')"
      by (intro exI[of _ lv2]) auto
  qed
next
  case (10 h k n kns acc)
  show ?case
  proof (intro impI)
    assume run: "load_dict h ((k, n) # kns) acc = (h', dd)" and rk: "ranked lv N h"
      and dh: "d + height_dict ((k, n) # kns) \<le> N"
      and ac: "\<forall>b. VRef b \<in> snd ` set acc \<longrightarrow> b < length h \<and> lv b = d"
    obtain h1 v1 where l1: "load h n = (h1, v1)" by (cases "load h n")
    with run have l2: "load_dict h1 kns (dict_set k v1 acc) = (h', dd)" by simp
    from "10.IH"(1)[of h1 v1 lv d] l1 rk dh obtain lv1 where
      a1: "loaded lv N h lv1 h1" and b1: "\<And>b. v1 = VRef b \<Longrightarrow> b < length h1 \<and> lv1 b = d"
      and m1: "all_keys mild_key n \<longrightarrow> heap_mild h \<longrightarrow> heap_mild h1" by auto
    from a1 have rk1: "ranked lv1 N h1" by (simp add: loaded_def)
    have ac1: "\<forall>b. VRef b \<in> snd ` set (dict_set k v1 acc) \<longrightarrow> b < length h1 \<and> lv1 b = d"
    proof (intro allI impI)
      fix b assume "VRef b \<in> snd ` set (dict_set k v1 acc)"
      with values_dict_set[of k v1 acc] have "VRef b = v1 \<or> VRef b \<in> snd ` set acc" by auto
      then show "b < length h1 \<and> lv1 b = d"
        using b1[of b] ac a1 by (auto simp: loaded_def)
    qed
    from "10.IH"(2)[OF l1[symmetric], of h' dd lv1 d] l2 rk1 dh ac1 obtain lv2 where
      a2: "loaded lv1 N h1 lv2 h'" and b2: "\<forall>b. VRef b \<in> snd ` set dd \<longrightarrow> b < length h' \<and> lv2 b = d"
      and m2: "all_keys_dict mild_key kns \<longrightarrow> list_all mild_key (map fst (dict_set k v1 acc)) \<longrightarrow>
          heap_mild h1 \<longrightarrow> heap_mild h' \<and> list_all mild_key (map fst dd)" by auto
    have "heap_mild h' \<and> list_all mild_key (map fst dd)"
      if "all_keys_dict mild_key ((k, n) # kns)" "list_all mild_key (map fst acc)" "heap_mild h"
      using that m1 m2 by (auto simp: list_all_keys)
    with loaded_trans[OF a1 a2] b2
    show "\<exists>lv'. loaded lv N h lv' h' \<and> (\<forall>b. VRef b \<in> snd ` set dd \<longrightarrow> b < length h' \<and> lv' b = d)
        \<and> (all_keys_dict mild_key ((k, n) # kns) \<longrightarrow> list_all mild_key (map fst acc) \<longrightarrow> heap_mild h \<longrightarrow>
              heap_mild h' \<and> list_all mild_key (map fst dd))"
      by (intro exI[of _ lv2]) auto
  qed
qed (auto intro: loaded_refl)

subsection \<open>No flag is left in the merged document\<close>

lemma stripped_entry: "stripped h v \<Longrightarrow> get_dict h v = Some d \<Longrightarrow> map_of d k = Some y \<Longrightarrow> stripped h y"
  unfolding stripped_def by (meson reach.reach_entry reach.reach_self reach_trans)

lemma stripped_item: "stripped h v \<Longrightarrow> get_list h v = Some xs \<Longrightarrow> y \<in> set xs \<Longrightarrow> stripped h y"
  unfolding stripped_def by (meson reach.reach_item reach.reach_self reach_trans)

lemma read_stripped:
  "read k h v = Some t \<longrightarrow> stripped h v \<longrightarrow> flag_free t"
  "read_list k h xs = Some ts \<longrightarrow> (\<forall>x. x \<in> set xs \<longrightarrow> stripped h x) \<longrightarrow> all_keys_list (\<lambda>k. \<not> flagged k) ts"
  "read_dict k h d ks = Some kts \<longrightarrow> (\<forall>key. key \<in> set ks \<longrightarrow> \<not> flagged key) \<longrightarrow>
      (\<forall>key y. map_of d key = Some y \<longrightarrow> stripped h y) \<longrightarrow> all_keys_dict (\<lambda>k. \<not> flagged k) kts"
proof (induction k h v and k h xs and k h d ks arbitrary: t and ts and kts
       rule: read_read_list_read_dict.induct)
  case (1 h v)
  then show ?case by simp
next
  case (2 n h v)
  show ?case
  proof (intro impI)
    assume r: "read (Suc n) h v = Some t" and c: "stripped h v"
    show "flag_free t"
    proof (cases v)
      case (VRef a)
      show ?thesis
      proof (cases "get_obj h a")
        case None
        with r VRef show ?thesis by simp
      next
        case (Some ob)
        then have a: "a < length h" "h ! a = ob" by (auto simp: get_obj_def split: if_splits)
        show ?thesis
        proof (cases ob)
          case (ODict d)
          with Some VRef have gd: "get_dict h v = Some d" by (simp add: get_dict_def)
          from r VRef Some ODict obtain kts where
            rd: "read_dict n h d (map fst d) = Some kts" and t: "t = Mapping kts" by auto
          from c VRef a ODict have "keys_ok (\<lambda>k. \<not> flagged k) (ODict d)"
            by (auto simp: stripped_def intro: reach.reach_self)
          then have "\<forall>key. key \<in> set (map fst d) \<longrightarrow> \<not> flagged key"
            by (auto simp: keys_ok_def list_all_keys)
          with "2.IH"(1)[OF VRef Some ODict, of kts] rd stripped_entry[OF c gd]
          show ?thesis unfolding t flag_free_def by auto
        next
          case (OList xs)
          with Some VRef have gl: "get_list h v = Some xs" by (simp add: get_list_def)
          from r VRef Some OList obtain ts where
            rl: "read_list n h xs = Some ts" and t: "t = Seq ts" by auto
          from "2.IH"(2)[OF VRef Some OList, of ts] rl stripped_item[OF c gl]
          show ?thesis unfolding t flag_free_def by auto
        qed
      qed
    qed (use r in \<open>auto simp: flag_free_def\<close>)
  qed
next
  case (3 n h)
  then show ?case by simp
next
  case (4 n h x xs)
  then show ?case by (auto split: option.splits simp: flag_free_def)
next
  case (5 n h d)
  then show ?case by simp
next
  case (6 n h d k ks)
  then show ?case by (auto split: option.splits simp: flag_free_def)
qed

lemma ranked_empty: "ranked (\<lambda>a. 0) N []"
  by (simp add: ranked_def)

lemma load_two:
  assumes l0: "load [] template = (h0, t)" and l1: "load h0 local = (h1, l)"
  shows "\<exists>lv N. ranked lv N h1 \<and> (\<forall>ta la. t = VRef ta \<longrightarrow> l = VRef la \<longrightarrow> lv la = lv ta)
      \<and> (all_keys mild_key template \<longrightarrow> all_keys mild_key local \<longrightarrow> heap_mild h1)"
proof -
  define N where "N = max (height template) (height local)"
  from load_pc(1)[of "[]" template h0 t "\<lambda>a. 0" N 0] l0 obtain lv0 where
    a0: "loaded (\<lambda>a. 0) N [] lv0 h0" and b0: "\<And>b. t = VRef b \<Longrightarrow> b < length h0 \<and> lv0 b = 0"
    and m0: "all_keys mild_key template \<longrightarrow> heap_mild h0"
    by (auto simp: ranked_empty N_def heap_mild_def)
  from a0 have rk0: "ranked lv0 N h0" by (simp add: loaded_def)
  from load_pc(1)[of h0 local h1 l lv0 N 0] l1 rk0 obtain lv1 where
    a1: "loaded lv0 N h0 lv1 h1" and b1: "\<And>b. l = VRef b \<Longrightarrow> b < length h1 \<and> lv1 b = 0"
    and m1: "all_keys mild_key local \<longrightarrow> heap_mild h0 \<longrightarrow> heap_mild h1"
    by (auto simp: N_def)
  have "lv1 la = lv1 ta" if "t = VRef ta" "l = VRef la" for ta la
    using b0[OF that(1)] b1[OF that(2)] a1 by (simp add: loaded_def)
  with a1 m0 m1 show ?thesis
    by (intro exI[of _ lv1] exI[of _ N]) (auto simp: loaded_def)
qed

text \<open>
  C6, as amended. When no key of the template and of the local document, at any depth,
  begins with two flags, no key of the document \<^verbatim>\<open>_merge_settings\<close> returns, at any
  depth and also inside lists, begins with \<^verbatim>\<open>+\<close> or \<^verbatim>\<open>!\<close>.
\<close>

theorem merge_output_flag_free:
  assumes "all_keys mild_key template" and "all_keys mild_key local"
    and "Merge n template local = Inr (Some t)"
  shows "flag_free t"
proof -
  obtain h0 tv where l0: "load [] template = (h0, tv)" by (cases "load [] template")
  obtain h1 lv where l1: "load h0 local = (h1, lv)" by (cases "load h0 local")
  from assms(3) l0 l1 obtain h2 m where
    ms: "merge_settings n h1 tv lv = Inr (h2, m)" and rd: "read n h2 m = Some t"
    by (auto simp: Merge_def merge_run_def split: sum.splits)
  from load_two[OF l0 l1] assms(1,2) obtain lvl N where
    rk: "ranked lvl N h1" and eq: "\<forall>ta la. tv = VRef ta \<longrightarrow> lv = VRef la \<longrightarrow> lvl la = lvl ta"
    and hm: "heap_mild h1" by auto
  from merge_settings_pc[OF ms rk eq] hm have "stripped h2 m" by (auto simp: ms_post_def)
  with read_stripped(1)[of n h2 m t] rd show ?thesis by simp
qed

text \<open>An instance with flagged keys in both documents.\<close>

theorem merge_output_flag_free_witness:
  "all_keys mild_key (Mapping [(''+x'', Seq [Num 1, Num 2]), (''!y'', Mapping [(''+z'', Num 1)])])
   \<and> all_keys mild_key (Mapping [(''x'', Seq [Num 2, Num 3]), (''+w'', Num 0)])
   \<and> Merge 1000 (Mapping [(''+x'', Seq [Num 1, Num 2]), (''!y'', Mapping [(''+z'', Num 1)])])
                 (Mapping [(''x'', Seq [Num 2, Num 3]), (''+w'', Num 0)])
      = Inr (Some (Mapping [(''x'', Seq [Num 1, Num 2, Num 3]), (''y'', Mapping [(''z'', Num 1)]), (''w'', Num 0)]))
   \<and> flag_free (Mapping [(''x'', Seq [Num 1, Num 2, Num 3]), (''y'', Mapping [(''z'', Num 1)]), (''w'', Num 0)])"
proof -
  have a: "all_keys mild_key (Mapping [(''+x'', Seq [Num 1, Num 2]), (''!y'', Mapping [(''+z'', Num 1)])])"
    by code_simp
  have b: "all_keys mild_key (Mapping [(''x'', Seq [Num 2, Num 3]), (''+w'', Num 0)])"
    by code_simp
  have c: "Merge 1000 (Mapping [(''+x'', Seq [Num 1, Num 2]), (''!y'', Mapping [(''+z'', Num 1)])])
                 (Mapping [(''x'', Seq [Num 2, Num 3]), (''+w'', Num 0)])
      = Inr (Some (Mapping [(''x'', Seq [Num 1, Num 2, Num 3]), (''y'', Mapping [(''z'', Num 1)]), (''w'', Num 0)]))"
    by code_simp
  from merge_output_flag_free[OF a b c] a b c show ?thesis by blast
qed

text \<open>
  C6 as stated fails for a key with two flags: \<^verbatim>\<open>_strip_flags\<close> drops one character, and
  the merge of the empty document over \<^verbatim>\<open>{"++x": 1}\<close> is \<^verbatim>\<open>{"+x": 1}\<close>.
\<close>

theorem merge_output_keeps_second_flag:
  "Merge 1000 (Mapping [(''++x'', Num 1)]) (Mapping []) = Inr (Some (Mapping [(''+x'', Num 1)]))
   \<and> \<not> flag_free (Mapping [(''+x'', Num 1)])"
  by code_simp

subsection \<open>The merge returns\<close>

lemma fuel_ok_child:
  assumes "ranked lv N h" "fuel_ok lv N h (Suc n) (VRef a)" "a < length h" "y \<in> children (h ! a)"
  shows "fuel_ok lv N h n y"
proof -
  from assms(1,3) have la: "lv a \<le> N" by (simp add: ranked_def)
  with assms(2,3) have n: "0 < n" by (auto simp: fuel_ok_def)
  have "N + 2 \<le> n + lv b" if "y = VRef b" for b
    using ranked_child[OF assms(1,3), of b] assms(2,3,4) that by (auto simp: fuel_ok_def)
  with n show ?thesis by (simp add: fuel_ok_def)
qed

lemma py_eq_total:
  "ranked lv N h \<longrightarrow> fuel_ok lv N h n v \<longrightarrow> fuel_ok lv N h n w \<longrightarrow> (\<exists>r. py_eq n h v w = Some r)"
  "ranked lv N h \<longrightarrow> (\<forall>x. x \<in> set xs \<longrightarrow> fuel_ok lv N h n x) \<longrightarrow> (\<forall>y. y \<in> set ys \<longrightarrow> fuel_ok lv N h n y)
     \<longrightarrow> (\<exists>r. py_eq_list n h xs ys = Some r)"
  "ranked lv N h \<longrightarrow> (\<forall>k x. map_of d k = Some x \<longrightarrow> fuel_ok lv N h n x)
     \<longrightarrow> (\<forall>k y. map_of e k = Some y \<longrightarrow> fuel_ok lv N h n y)
     \<longrightarrow> (\<forall>k. k \<in> set ks \<longrightarrow> map_of d k \<noteq> None)
     \<longrightarrow> (\<exists>r. py_eq_dict n h d e ks = Some r)"
proof (induction n h v w and n h xs ys and n h d e ks rule: py_eq_py_eq_list_py_eq_dict.induct)
  case (1 h v w)
  then show ?case by (simp add: fuel_ok_def)
next
  case (2 n h v w)
  show ?case
  proof (intro impI)
    assume rk: "ranked lv N h" and fv: "fuel_ok lv N h (Suc n) v" and fw: "fuel_ok lv N h (Suc n) w"
    show "\<exists>r. py_eq (Suc n) h v w = Some r"
    proof (cases "\<not> (is_ref v \<and> is_ref w) \<or> v = w")
      case True
      then show ?thesis by auto
    next
      case False
      then have c: "is_ref v \<and> is_ref w" "\<not> \<not> (is_ref v \<and> is_ref w)" "v \<noteq> w" by auto
      show ?thesis
      proof (cases "get_list h v \<noteq> None \<and> get_list h w \<noteq> None")
        case True
        then obtain a xs b ys where v: "v = VRef a" "a < length h" "h ! a = OList xs"
          and w: "w = VRef b" "b < length h" "h ! b = OList ys"
          by (auto simp: get_list_Some)
        then have g: "get_list h v = Some xs" "get_list h w = Some ys" by (simp_all add: get_list_Some)
        show ?thesis
        proof (cases "length xs = length ys")
          case le: True
          have "\<forall>x. x \<in> set xs \<longrightarrow> fuel_ok lv N h n x"
            using fuel_ok_child[OF rk fv[unfolded v(1)] v(2)] v(3) by (simp add: children_def)
          moreover have "\<forall>y. y \<in> set ys \<longrightarrow> fuel_ok lv N h n y"
            using fuel_ok_child[OF rk fw[unfolded w(1)] w(2)] w(3) by (simp add: children_def)
          ultimately have "\<exists>r. py_eq_list n h xs ys = Some r"
            using "2.IH"(1)[OF c(2,3) True] rk le g by simp
          with c g le show ?thesis by simp
        next
          case False
          with c g show ?thesis by auto
        qed
      next
        case nl: False
        show ?thesis
        proof (cases "get_dict h v \<noteq> None \<and> get_dict h w \<noteq> None")
          case True
          then obtain a d b e where v: "v = VRef a" "a < length h" "h ! a = ODict d"
            and w: "w = VRef b" "b < length h" "h ! b = ODict e"
            by (auto simp: get_dict_Some)
          then have g: "get_dict h v = Some d" "get_dict h w = Some e" by (simp_all add: get_dict_Some)
          show ?thesis
          proof (cases "length d = length e")
            case le: True
            have "\<forall>k x. map_of d k = Some x \<longrightarrow> fuel_ok lv N h n x"
              using fuel_ok_child[OF rk fv[unfolded v(1)] v(2)] v(3) by (auto simp: children_def ran_def)
            moreover have "\<forall>k y. map_of e k = Some y \<longrightarrow> fuel_ok lv N h n y"
              using fuel_ok_child[OF rk fw[unfolded w(1)] w(2)] w(3) by (auto simp: children_def ran_def)
            moreover have "\<forall>k. k \<in> set (map fst d) \<longrightarrow> map_of d k \<noteq> None"
              by (simp add: map_of_eq_None_iff)
            ultimately have "\<exists>r. py_eq_dict n h d e (map fst d) = Some r"
              using "2.IH"(2)[OF c(2,3) nl True] rk le g by simp
            with c g le not_dict_and_list[OF g(1)] show ?thesis by simp
          next
            case False
            with c g not_dict_and_list[OF g(1)] show ?thesis by auto
          qed
        next
          case False
          with nl c show ?thesis by auto
        qed
      qed
    qed
  qed
next
  case (5 n h x xs y ys)
  show ?case
  proof (intro impI)
    assume rk: "ranked lv N h" and fx: "\<forall>z. z \<in> set (x # xs) \<longrightarrow> fuel_ok lv N h n z"
      and fy: "\<forall>z. z \<in> set (y # ys) \<longrightarrow> fuel_ok lv N h n z"
    from "5.IH"(1) rk fx fy obtain r where r: "py_eq n h x y = Some r" by auto
    show "\<exists>r. py_eq_list n h (x # xs) (y # ys) = Some r"
    proof (cases r)
      case True
      with "5.IH"(2) r rk fx fy show ?thesis by auto
    next
      case False
      with r show ?thesis by auto
    qed
  qed
next
  case (7 n h d e k ks)
  show ?case
  proof (intro impI)
    assume rk: "ranked lv N h" and fd: "\<forall>k x. map_of d k = Some x \<longrightarrow> fuel_ok lv N h n x"
      and fe: "\<forall>k y. map_of e k = Some y \<longrightarrow> fuel_ok lv N h n y"
      and ks: "\<forall>k'. k' \<in> set (k # ks) \<longrightarrow> map_of d k' \<noteq> None"
    show "\<exists>r. py_eq_dict n h d e (k # ks) = Some r"
    proof (cases "map_of e k = None")
      case True
      then show ?thesis by auto
    next
      case False
      then obtain y where y: "map_of e k = Some y" by auto
      from ks obtain x where x: "map_of d k = Some x" by auto
      from "7.IH"(1)[OF False] rk fd fe x y obtain r where r: "py_eq n h x y = Some r" by auto
      show ?thesis
      proof (cases r)
        case True
        with "7.IH"(2)[OF False] r rk fd fe ks x y show ?thesis by auto
      next
        case f: False
        with r x y False show ?thesis by auto
      qed
    qed
  qed
qed auto

lemma py_in_total:
  "ranked lv N h \<Longrightarrow> fuel_ok lv N h n v \<Longrightarrow> (\<And>x. x \<in> set xs \<Longrightarrow> fuel_ok lv N h n x) \<Longrightarrow>
     \<exists>r. py_in n h v xs = Some r"
proof (induction xs)
  case Nil
  then show ?case by auto
next
  case (Cons x xs)
  from py_eq_total(1)[of lv N h n x v] Cons.prems obtain r where r: "py_eq n h x v = Some r" by auto
  show ?case
  proof (cases r)
    case True
    with r show ?thesis by auto
  next
    case False
    with r Cons show ?thesis by auto
  qed
qed

lemma append_new_total:
  "ranked lv N h \<Longrightarrow> te < length h \<Longrightarrow> h ! te = OList xs \<Longrightarrow>
   (\<And>x. x \<in> set xs \<union> set items \<Longrightarrow> fuel_ok lv N h n x) \<Longrightarrow>
   (\<And>b. VRef b \<in> set items \<Longrightarrow> b < length h \<and> lv b = Suc (lv te)) \<Longrightarrow>
   \<exists>h'. append_new n h te items = Inr h'"
proof (induction items arbitrary: h xs)
  case Nil
  then show ?case by simp
next
  case (Cons item items)
  have gl: "get_list h (VRef te) = Some xs" using Cons.prems(2,3) by (simp add: get_list_Some)
  from py_in_total[OF Cons.prems(1), of n item xs] Cons.prems(4)
  obtain r where r: "py_in n h item xs = Some r" by auto
  show ?case
  proof (cases r)
    case True
    have "\<exists>h'. append_new n h te items = Inr h'"
      by (rule Cons.IH[OF Cons.prems(1,2,3)]) (use Cons.prems(4,5) in auto)
    with r True gl show ?thesis by simp
  next
    case False
    let ?h1 = "h[te := OList (xs @ [item])]"
    have rk1: "ranked lv N ?h1"
    proof (rule ranked_update[OF Cons.prems(1,2)])
      fix b assume "VRef b \<in> children (OList (xs @ [item]))"
      then have "VRef b \<in> children (h ! te) \<or> VRef b = item"
        using Cons.prems(3) by (auto simp: children_def)
      then show "b < length h \<and> lv b = Suc (lv te)"
        using ranked_child[OF Cons.prems(1,2), of b] Cons.prems(5)[of b] by auto
    qed
    have fo: "fuel_ok lv N ?h1 n x = fuel_ok lv N h n x" for x by (simp add: fuel_ok_def)
    have "\<exists>h'. append_new n ?h1 te items = Inr h'"
      by (rule Cons.IH[OF rk1, of "xs @ [item]"]) (use Cons.prems(2,4,5) fo in auto)
    with r False gl Cons.prems(2,3) show ?thesis by (simp add: append_item_def get_obj_def)
  qed
qed

lemma strip_total:
  "ranked lv N h \<longrightarrow> 0 < n \<longrightarrow> (\<forall>b. v = VRef b \<longrightarrow> b < length h \<longrightarrow> N + 1 \<le> n + lv b) \<longrightarrow>
     (\<exists>h'. strip_flags n h v = Inr h')"
  "ranked lv N h \<longrightarrow> (\<forall>b. VRef b \<in> set items \<longrightarrow> b < length h \<longrightarrow> N + 1 \<le> n + lv b) \<longrightarrow>
     (\<exists>h'. strip_items n h items = Inr h')"
  "ranked lv N h \<longrightarrow> is_dict h (VRef a) \<longrightarrow> N \<le> n + lv a \<longrightarrow>
     (\<exists>h'. strip_keys n h a keys = Inr h')"
proof (induction n h v and n h items and n h a keys
       rule: strip_flags_strip_items_strip_keys.induct)
  case (1 h v)
  show ?case by simp
next
  case (2 n h v)
  show ?case
  proof (intro impI)
    assume rk: "ranked lv N h" and lv: "\<forall>b. v = VRef b \<longrightarrow> b < length h \<longrightarrow> N + 1 \<le> Suc n + lv b"
    show "\<exists>h'. strip_flags (Suc n) h v = Inr h'"
    proof (cases "is_list h v")
      case True
      then obtain b xs where b: "v = VRef b" "b < length h" "h ! b = OList xs"
        by (auto simp: is_list_iff)
      then have gl: "get_list h v = Some xs" by (simp add: get_list_Some)
      have "\<forall>c. VRef c \<in> set xs \<longrightarrow> c < length h \<longrightarrow> N + 1 \<le> n + lv c"
        using ranked_child[OF rk b(2)] b lv by (auto simp: children_def)
      with "2.IH"(1)[OF True] rk gl True show ?thesis by simp
    next
      case False
      show ?thesis
      proof (cases "is_dict h v")
        case True
        then obtain b d where b: "v = VRef b" "b < length h" "h ! b = ODict d"
          by (auto simp: is_dict_iff)
        with "2.IH"(2)[OF False True] rk lv True False show ?thesis by auto
      next
        case nd: False
        with False show ?thesis by simp
      qed
    qed
  qed
next
  case (3 n h)
  show ?case by simp
next
  case (4 n h item items)
  show ?case
  proof (intro impI)
    assume rk: "ranked lv N h"
      and lv: "\<forall>b. VRef b \<in> set (item # items) \<longrightarrow> b < length h \<longrightarrow> N + 1 \<le> n + lv b"
    show "\<exists>h'. strip_items n h (item # items) = Inr h'"
    proof (cases "is_list h item \<or> is_dict h item")
      case True
      then obtain b where b: "item = VRef b" "b < length h" by (auto simp: is_list_iff is_dict_iff)
      with rk have "lv b \<le> N" by (simp add: ranked_def)
      with lv b have "0 < n" by auto
      with "4.IH"(1)[OF True] rk lv obtain h1 where r1: "strip_flags n h item = Inr h1" by auto
      from strip_pc(1)[of n h item h1 lv N 0] r1 rk have s1: "sub h h1" by simp
      from "4.IH"(2)[OF True r1] ranked_sub[OF rk s1] lv sub_length[OF s1]
      obtain h' where "strip_items n h1 items = Inr h'" by auto
      with True r1 show ?thesis by simp
    next
      case False
      with "4.IH"(3)[OF False] rk lv show ?thesis by simp
    qed
  qed
next
  case (5 n h a)
  show ?case by simp
next
  case (6 n h a key0 keys)
  show ?case
  proof (intro impI)
    assume rk: "ranked lv N h" and isd: "is_dict h (VRef a)" and fu: "N \<le> n + lv a"
    from isd obtain d where a: "a < length h" "h ! a = ODict d" by (auto simp: is_dict_iff)
    then have gd: "get_dict h (VRef a) = Some d" by (simp add: get_dict_Some)
    show "\<exists>h'. strip_keys n h a (key0 # keys) = Inr h'"
    proof (cases "dict_has key0 d")
      case False
      with "6.IH"(1)[OF refl] rk isd fu gd show ?thesis by simp
    next
      case True
      then obtain entry where e: "map_of d key0 = Some entry" by (auto simp: dict_has_def)
      define key where "key = (if flagged key0 then drop 1 key0 else key0)"
      define h1 where "h1 = (if flagged key0 then del_item (set_item h a key entry) a key0 else h)"
      have step: "strip_keys n h a (key0 # keys) =
          (if is_dict h1 entry then
             (case strip_flags n h1 entry of
                Inl e \<Rightarrow> Inl e
              | Inr h2 \<Rightarrow> strip_keys n (set_item (set_item h2 a key entry) a key entry) a keys)
           else if is_list h1 entry then
             (case strip_items n h1 (the (get_list h1 entry)) of
                Inl e \<Rightarrow> Inl e
              | Inr h2 \<Rightarrow> strip_keys n (set_item h2 a key entry) a keys)
           else strip_keys n (set_item h1 a key entry) a keys)"
        using gd True e by (simp add: Let_def key_def h1_def cong: sum.case_cong if_cong)
      have nn: "\<not> \<not> dict_has key0 (the (get_dict h (VRef a)))" using True gd by simp
      have ee: "entry = the (map_of (the (get_dict h (VRef a))) key0)" using e gd by simp
      note ps = pre_step[OF a e key_def h1_def]
      have rk1: "ranked lv N h1" using rk ps(1) by (rule ranked_sub)
      have len1: "length h1 = length h" using ps(1) by (rule sub_length)
      have elv: "lv b = Suc (lv a) \<and> b < length h" if "entry = VRef b" for b
      proof -
        from e that a have "VRef b \<in> children (h ! a)" by (auto simp: children_def ran_def)
        from ranked_child[OF rk a(1) this] show ?thesis by simp
      qed
      have fin: "\<exists>h'. strip_keys n h a (key0 # keys) = Inr h'"
        if mid: "sub h1 h2" "frame_ex lv (Suc (lv a)) {} h1 h2" "heap_mild h \<longrightarrow> stripped h2 entry"
          and h3: "h3 = set_item h2 a key entry \<or> h3 = set_item (set_item h2 a key entry) a key entry"
          and ih: "ranked lv N h3 \<longrightarrow> is_dict h3 (VRef a) \<longrightarrow> N \<le> n + lv a \<longrightarrow>
                (\<exists>h'. strip_keys n h3 a keys = Inr h')"
          and st: "strip_keys n h a (key0 # keys) = strip_keys n h3 a keys"
        for h2 h3
      proof -
        note ks = key_step[OF a e key_def h1_def mid h3]
        from ih ranked_sub[OF rk ks(1)] ks(3) fu st show ?thesis by simp
      qed
      show ?thesis
      proof (cases "is_dict h1 entry")
        case isd1: True
        then obtain b where b: "entry = VRef b" "b < length h1" by (auto simp: is_dict_iff)
        from elv[OF b(1)] have eb: "lv b = Suc (lv a)" "b < length h" by simp_all
        from rk eb(2) have "lv b \<le> N" by (simp add: ranked_def)
        note this eb(1)
        with fu have n0: "0 < n" and fb: "N + 1 \<le> n + lv b" by auto
        from "6.IH"(2)[OF refl nn ee[symmetric, THEN sym] key_def h1_def isd1] rk1 n0 fb b
        obtain h2 where r2: "strip_flags n h1 entry = Inr h2" by auto
        from strip_pc(1)[of n h1 entry h2 lv N "Suc (lv a)"] r2 rk1 elv
        have mid0: "sub h1 h2" "frame_ex lv (Suc (lv a)) {b. entry = VRef b} h1 h2"
          "heap_mild h1 \<longrightarrow> stripped h2 entry" by auto
        have m2: "frame_ex lv (Suc (lv a)) {} h1 h2"
          using mid0(2) by (rule frame_ex_drop) (use elv in auto)
        have se: "heap_mild h \<longrightarrow> stripped h2 entry"
          using mid0(3) heap_mild_sub[OF _ ps(1)] by blast
        show ?thesis
          by (rule fin[OF mid0(1) m2 se, of "set_item (set_item h2 a key entry) a key entry"])
             (use "6.IH"(3)[OF refl nn ee[symmetric, THEN sym] key_def h1_def isd1 r2] step isd1 r2 in auto)
      next
        case nd1: False
        show ?thesis
        proof (cases "is_list h1 entry")
          case isl1: True
          then obtain b xs where b: "entry = VRef b" "b < length h1" "h1 ! b = OList xs"
            by (auto simp: is_list_iff)
          then have gl: "get_list h1 entry = Some xs" by (simp add: get_list_Some)
          have xlv: "\<forall>c. VRef c \<in> set xs \<longrightarrow> lv c = Suc (Suc (lv a)) \<and> c < length h1"
            using ranked_child[OF rk1 b(2)] b elv[OF b(1)] by (auto simp: children_def)
          then have "\<forall>c. VRef c \<in> set xs \<longrightarrow> c < length h1 \<longrightarrow> N + 1 \<le> n + lv c"
            using fu by auto
          with "6.IH"(4)[OF refl nn ee[symmetric, THEN sym] key_def h1_def nd1 isl1] rk1 gl
          obtain h2 where r2: "strip_items n h1 xs = Inr h2" by auto
          from strip_pc(2)[of n h1 xs h2 lv N "Suc (lv a)"] r2 rk1 xlv
          have mid0: "sub h1 h2" "frame_ex lv (Suc (lv a)) {c. VRef c \<in> set xs} h1 h2"
            and st: "heap_mild h1 \<Longrightarrow> x \<in> set xs \<Longrightarrow> stripped h2 x" for x by auto
          have m2: "frame_ex lv (Suc (lv a)) {} h1 h2"
            using mid0(2) by (rule frame_ex_drop) (use xlv in auto)
          have "stripped h2 entry" if "heap_mild h"
            unfolding b(1)
            by (rule stripped_list[OF _ sub_list[OF mid0(1) b(2,3)]])
               (use b mid0(1) st heap_mild_sub[OF that ps(1)] in \<open>auto simp: sub_length\<close>)
          then have se: "heap_mild h \<longrightarrow> stripped h2 entry" by simp
          show ?thesis
            by (rule fin[OF mid0(1) m2 se, of "set_item h2 a key entry"])
               (use "6.IH"(5)[OF refl nn ee[symmetric, THEN sym] key_def h1_def nd1 isl1] step nd1 isl1 r2 gl in auto)
        next
          case nl1: False
          have se: "heap_mild h \<longrightarrow> stripped h1 entry" using nd1 nl1 by (simp add: stripped_leaf)
          show ?thesis
            by (rule fin[OF sub_refl frame_ex_refl se, of "set_item h1 a key entry"])
               (use "6.IH"(6)[OF refl nn ee[symmetric, THEN sym] key_def h1_def nd1 nl1] step nd1 nl1 in auto)
        qed
      qed
    qed
  qed
qed

lemma merge_key_unfold:
  assumes gl: "get_dict h (VRef la) = Some dl" and gt: "get_dict h (VRef ta) = Some dt"
    and el: "map_of dl key0 = Some entry_l"
    and ik: "is_key_in dt (if startswith key0 ''!'' then drop 1 key0 else key0) = (True, flag)"
    and et: "map_of dt (flag @ (if startswith key0 ''!'' then drop 1 key0 else key0)) = Some entry_t"
  shows "merge_key n h (VRef ta) (VRef la) m key0 =
     (case (if startswith key0 ''!''
            then Inr (set_item h m (if startswith key0 ''!'' then drop 1 key0 else key0) entry_l)
            else if is_dict h entry_t \<and> is_dict h entry_l then
              (case merge_settings n h entry_t entry_l of
                 Inl e \<Rightarrow> Inl e
               | Inr (h', merged') \<Rightarrow>
                   Inr (set_item h' m (if startswith key0 ''!'' then drop 1 key0 else key0) merged'))
            else if is_list h entry_t \<and> is_list h entry_l then
              (if \<not> startswith key0 ''!'' \<and> flag = ''+'' then
                 (case append_new n h (case entry_t of VRef t \<Rightarrow> t | _ \<Rightarrow> 0) (the (get_list h entry_l)) of
                    Inl e \<Rightarrow> Inl e
                  | Inr h' \<Rightarrow>
                      Inr (set_item h' m (if startswith key0 ''!'' then drop 1 key0 else key0) entry_t))
               else Inr (set_item h m (if startswith key0 ''!'' then drop 1 key0 else key0) entry_l))
            else Inr (set_item h m (if startswith key0 ''!'' then drop 1 key0 else key0) entry_l)) of
        Inl e \<Rightarrow> Inl e
      | Inr h1 \<Rightarrow>
          Inr (if flag \<noteq> [] \<and> dict_has (flag @ (if startswith key0 ''!'' then drop 1 key0 else key0))
                                 (the (get_dict h1 (VRef m)))
               then del_item h1 m (flag @ (if startswith key0 ''!'' then drop 1 key0 else key0))
               else h1))"
  unfolding merge_key.simps Let_def gl gt option.sel el option.case ik prod.case bool.case et
  by simp

lemma merge_key_total:
  assumes IH: "\<forall>h t l lv. ranked lv N h \<longrightarrow> is_dict h t \<longrightarrow> is_dict h l \<longrightarrow>
        (\<forall>ta la. t = VRef ta \<longrightarrow> l = VRef la \<longrightarrow> lv la = lv ta \<and> N + 2 \<le> n + lv ta) \<longrightarrow>
        (\<exists>r. merge_settings n h t l = Inr r)"
    and inv: "mk_inv lv N h ta la m"
    and k0: "dict_has key0 (the (get_dict h (VRef la)))"
    and fu: "N + 1 \<le> n + lv m"
  shows "\<exists>h'. merge_key n h (VRef ta) (VRef la) m key0 = Inr h'"
proof -
  from inv obtain dt dl dm where
    rk: "ranked lv N h" and ta: "ta < length h" "h ! ta = ODict dt"
    and la: "la < length h" "h ! la = ODict dl" and m: "m < length h" "h ! m = ODict dm"
    and lvs: "lv la = lv ta" "lv m = lv ta"
    by (auto simp: mk_inv_def)
  have gt: "get_dict h (VRef ta) = Some dt" and gl: "get_dict h (VRef la) = Some dl"
    using ta la by (simp_all add: get_dict_Some)
  from k0 gl obtain entry_l where el: "map_of dl key0 = Some entry_l" by (auto simp: dict_has_def)
  define key where "key = (if startswith key0 ''!'' then drop 1 key0 else key0)"
  obtain ex flag where ik: "is_key_in dt key = (ex, flag)" by (cases "is_key_in dt key")
  have lvl: "b < length h \<and> lv b = Suc (lv m)" if "entry_l = VRef b" for b
  proof -
    from el that la have "VRef b \<in> children (h ! la)" by (auto simp: children_def ran_def)
    from ranked_child[OF rk la(1) this] lvs show ?thesis by simp
  qed
  show ?thesis
  proof (cases ex)
    case False
    with gl gt el ik show ?thesis by (simp add: Let_def key_def)
  next
    case True
    with ik have ik': "is_key_in dt (if startswith key0 ''!'' then drop 1 key0 else key0) = (True, flag)"
      by (simp add: key_def)
    from is_key_in_True[OF this] obtain entry_t where
      et: "map_of dt (flag @ (if startswith key0 ''!'' then drop 1 key0 else key0)) = Some entry_t" by auto
    have lvt: "b < length h \<and> lv b = Suc (lv m)" if "entry_t = VRef b" for b
    proof -
      from et that ta have "VRef b \<in> children (h ! ta)" by (auto simp: children_def ran_def)
      from ranked_child[OF rk ta(1) this] lvs show ?thesis by simp
    qed
    note eq = merge_key_unfold[OF gl gt el ik' et, of n m]
    show ?thesis
    proof (cases "startswith key0 ''!''")
      case True
      then show ?thesis unfolding eq by simp
    next
      case ns: False
      show ?thesis
      proof (cases "is_dict h entry_t \<and> is_dict h entry_l")
        case True
        have "\<forall>ta la. entry_t = VRef ta \<longrightarrow> entry_l = VRef la \<longrightarrow> lv la = lv ta \<and> N + 2 \<le> n + lv ta"
          using lvt lvl fu by auto
        with IH rk True obtain r where "merge_settings n h entry_t entry_l = Inr r" by blast
        with ns True show ?thesis unfolding eq by (cases r) simp
      next
        case nd: False
        show ?thesis
        proof (cases "is_list h entry_t \<and> is_list h entry_l \<and> flag = ''+''")
          case True
          then obtain te xt le xl where tl: "entry_t = VRef te" "te < length h" "h ! te = OList xt"
            "entry_l = VRef le" "le < length h" "h ! le = OList xl"
            by (auto simp: is_list_iff)
          then have gll: "get_list h entry_l = Some xl" by (simp add: get_list_Some)
          from lvt[OF tl(1)] lvl[OF tl(4)] have te: "lv te = Suc (lv m)" "lv le = Suc (lv m)" by simp_all
          from rk tl(2) te have "Suc (lv m) \<le> N" by (auto simp: ranked_def)
          with fu have n0: "0 < n" by simp
          have lev: "b < length h \<and> lv b = Suc (Suc (lv m))" if "VRef b \<in> set xt \<union> set xl" for b
            using that ranked_child[OF rk tl(2), of b] ranked_child[OF rk tl(5), of b] tl te
            by (auto simp: children_def)
          have fo: "fuel_ok lv N h n x" if "x \<in> set xt \<union> set xl" for x
            unfolding fuel_ok_def using n0 lev that fu by auto
          have "\<exists>h'. append_new n h te xl = Inr h'"
            by (rule append_new_total[OF rk tl(2,3)]) (use fo lev te in auto)
          with ns nd True tl gll show ?thesis unfolding eq by auto
        next
          case False
          with ns nd show ?thesis unfolding eq by auto
        qed
      qed
    qed
  qed
qed

lemma merge_settings_pc_all:
  "\<forall>h t l h' mv lv. merge_settings n h t l = Inr (h', mv) \<longrightarrow> ranked lv N h \<longrightarrow>
        (\<forall>ta la. t = VRef ta \<longrightarrow> l = VRef la \<longrightarrow> lv la = lv ta) \<longrightarrow> ms_post lv N h t h' mv"
  using merge_settings_pc by blast

lemma merge_keys_total:
  assumes IH: "\<forall>h t l lv. ranked lv N h \<longrightarrow> is_dict h t \<longrightarrow> is_dict h l \<longrightarrow>
        (\<forall>ta la. t = VRef ta \<longrightarrow> l = VRef la \<longrightarrow> lv la = lv ta \<and> N + 2 \<le> n + lv ta) \<longrightarrow>
        (\<exists>r. merge_settings n h t l = Inr r)"
  shows "mk_inv lv N h ta la m \<Longrightarrow> (\<And>k. k \<in> set keys \<Longrightarrow> dict_has k (the (get_dict h (VRef la)))) \<Longrightarrow>
     N + 1 \<le> n + lv m \<Longrightarrow> \<exists>h'. merge_keys n h (VRef ta) (VRef la) m keys = Inr h'"
proof (induction keys arbitrary: h lv)
  case Nil
  then show ?case by simp
next
  case (Cons key0 keys)
  from merge_key_total[OF IH Cons.prems(1) _ Cons.prems(3)] Cons.prems(2)
  obtain h1 where k: "merge_key n h (VRef ta) (VRef la) m key0 = Inr h1" by auto
  from merge_key_pc[OF merge_settings_pc_all k Cons.prems(1)] obtain lv1 where
    s1: "step_ok lv N h m lv1 h1" by blast
  note inv1 = mk_inv_step[OF Cons.prems(1) s1]
  from Cons.prems(1) have i: "la < length h" "m < length h" "lv la = lv m" "m \<noteq> la"
    by (auto simp: mk_inv_def)
  from s1 i have "h1 ! la = h ! la" "lv1 m = lv m" "la < length h1"
    by (auto simp: step_ok_def frame_ex_def ext_def)
  then have "get_dict h1 (VRef la) = get_dict h (VRef la)" using i
    by (simp add: get_dict_def get_obj_def)
  with Cons.IH[OF inv1] Cons.prems(2,3) \<open>lv1 m = lv m\<close>
  obtain h' where "merge_keys n h1 (VRef ta) (VRef la) m keys = Inr h'" by auto
  with k show ?case by simp
qed

lemma merge_settings_total:
  "ranked lv N h \<Longrightarrow> is_dict h t \<Longrightarrow> is_dict h l \<Longrightarrow>
   (\<forall>ta la. t = VRef ta \<longrightarrow> l = VRef la \<longrightarrow> lv la = lv ta \<and> N + 2 \<le> n + lv ta) \<Longrightarrow>
   \<exists>r. merge_settings n h t l = Inr r"
proof (induction n arbitrary: h t l lv)
  case 0
  then obtain ta la where "t = VRef ta" "l = VRef la" "ta < length h" by (auto simp: is_dict_iff)
  with 0 have "lv ta \<le> N" "N + 2 \<le> lv ta" by (auto simp: ranked_def)
  then show ?case by simp
next
  case (Suc n)
  note rk = Suc.prems(1)
  from Suc.prems(2,3) obtain ta dt la dl where t: "t = VRef ta" "ta < length h" "h ! ta = ODict dt"
    and l: "l = VRef la" "la < length h" "h ! la = ODict dl"
    by (auto simp: is_dict_iff)
  with Suc.prems(4) have lvs: "lv la = lv ta" and fu: "N + 2 \<le> Suc n + lv ta" by auto
  from rk t have lN: "lv ta \<le> N" by (simp add: ranked_def)
  define m where "m = length h"
  define h1 where "h1 = h @ [ODict dt]"
  define lv1 where "lv1 = lv(m := lv ta)"
  have gt: "get_dict h t = Some dt" using t by (simp add: get_dict_Some)
  have gl1: "get_dict h1 l = Some dl" using l by (simp add: get_dict_Some h1_def nth_append)
  have rk1: "ranked lv1 N h1"
    unfolding lv1_def h1_def m_def
  proof (rule ranked_alloc[OF rk lN])
    fix b assume "VRef b \<in> children (ODict dt)"
    with ranked_child[OF rk t(2), of b] t show "b < length h \<and> lv b = Suc (lv ta)" by simp
  qed
  have inv1: "mk_inv lv1 N h1 ta la m"
    unfolding mk_inv_def using rk1 t l lvs
    by (auto simp: h1_def m_def lv1_def nth_append)
  have IH': "\<forall>h t l lv. ranked lv N h \<longrightarrow> is_dict h t \<longrightarrow> is_dict h l \<longrightarrow>
        (\<forall>ta la. t = VRef ta \<longrightarrow> l = VRef la \<longrightarrow> lv la = lv ta \<and> N + 2 \<le> n + lv ta) \<longrightarrow>
        (\<exists>r. merge_settings n h t l = Inr r)"
    using Suc.IH by blast
  have lm: "lv1 m = lv ta" by (simp add: lv1_def)
  have "\<exists>h2. merge_keys n h1 (VRef ta) (VRef la) m (map fst dl) = Inr h2"
  proof (rule merge_keys_total[OF IH' inv1])
    show "dict_has k (the (get_dict h1 (VRef la)))" if "k \<in> set (map fst dl)" for k
      using that gl1 l by (simp add: dict_has_def map_of_eq_None_iff)
    show "N + 1 \<le> n + lv1 m" using fu lm by simp
  qed
  then obtain h2 where mk: "merge_keys n h1 (VRef ta) (VRef la) m (map fst dl) = Inr h2" ..
  from merge_keys_pc[OF merge_settings_pc_all mk inv1] obtain lv2 where
    s2: "step_ok lv1 N h1 m lv2 h2" by blast
  have m1: "m < length h1" by (simp add: h1_def m_def)
  from s2 m1 have rk2: "ranked lv2 N h2" and lm2: "lv2 m = lv ta" and m2: "m < length h2"
    using lm by (auto simp: step_ok_def ext_def)
  from fu lN have n0: "0 < n" by simp
  from strip_total(1)[of lv2 N h2 n "VRef m"] rk2 n0 fu lm2
  obtain h3 where "strip_flags n h2 (VRef m) = Inr h3" by auto
  with mk Suc.prems(2,3) gt gl1 t l show ?case
    by (simp add: alloc_def h1_def m_def)
qed

lemma read_total:
  "ranked lv N h \<longrightarrow> fuel_ok lv N h n v \<longrightarrow> (\<forall>b. v = VRef b \<longrightarrow> b < length h) \<longrightarrow>
     (\<exists>t. read n h v = Some t)"
  "ranked lv N h \<longrightarrow> (\<forall>x. x \<in> set xs \<longrightarrow> fuel_ok lv N h n x \<and> (\<forall>b. x = VRef b \<longrightarrow> b < length h)) \<longrightarrow>
     (\<exists>ts. read_list n h xs = Some ts)"
  "ranked lv N h \<longrightarrow> (\<forall>k x. map_of d k = Some x \<longrightarrow> fuel_ok lv N h n x \<and> (\<forall>b. x = VRef b \<longrightarrow> b < length h)) \<longrightarrow>
     (\<forall>k. k \<in> set ks \<longrightarrow> map_of d k \<noteq> None) \<longrightarrow>
     (\<exists>kts. read_dict n h d ks = Some kts)"
proof (induction n h v and n h xs and n h d ks rule: read_read_list_read_dict.induct)
  case (1 h v)
  then show ?case by (simp add: fuel_ok_def)
next
  case (2 n h v)
  show ?case
  proof (intro impI)
    assume rk: "ranked lv N h" and fo: "fuel_ok lv N h (Suc n) v" and va: "\<forall>b. v = VRef b \<longrightarrow> b < length h"
    show "\<exists>t. read (Suc n) h v = Some t"
    proof (cases v)
      case (VRef a)
      with va have a: "a < length h" by simp
      then have go: "get_obj h a = Some (h ! a)" by (simp add: get_obj_def)
      have ch: "fuel_ok lv N h n y \<and> (\<forall>b. y = VRef b \<longrightarrow> b < length h)" if "y \<in> children (h ! a)" for y
        using fuel_ok_child[OF rk fo[unfolded VRef] a that] ranked_child[OF rk a] that by auto
      show ?thesis
      proof (cases "h ! a")
        case (ODict d)
        have "\<forall>k x. map_of d k = Some x \<longrightarrow> fuel_ok lv N h n x \<and> (\<forall>b. x = VRef b \<longrightarrow> b < length h)"
          using ch ODict by (auto simp: children_def ran_def)
        moreover have "\<forall>k. k \<in> set (map fst d) \<longrightarrow> map_of d k \<noteq> None"
          by (simp add: map_of_eq_None_iff)
        ultimately obtain kts where "read_dict n h d (map fst d) = Some kts"
          using "2.IH"(1)[OF VRef go ODict] rk by blast
        with VRef go ODict show ?thesis by simp
      next
        case (OList xs)
        have "\<forall>x. x \<in> set xs \<longrightarrow> fuel_ok lv N h n x \<and> (\<forall>b. x = VRef b \<longrightarrow> b < length h)"
          using ch OList by (auto simp: children_def)
        then obtain ts where "read_list n h xs = Some ts"
          using "2.IH"(2)[OF VRef go OList] rk by blast
        with VRef go OList show ?thesis by simp
      qed
    qed auto
  qed
next
  case (4 n h x xs)
  then show ?case by (auto split: option.splits)
next
  case (6 n h d k ks)
  show ?case
  proof (intro impI)
    assume rk: "ranked lv N h"
      and fo: "\<forall>k x. map_of d k = Some x \<longrightarrow> fuel_ok lv N h n x \<and> (\<forall>b. x = VRef b \<longrightarrow> b < length h)"
      and ks: "\<forall>k'. k' \<in> set (k # ks) \<longrightarrow> map_of d k' \<noteq> None"
    from ks obtain x where x: "map_of d k = Some x" by auto
    from "6.IH"(1)[OF x] rk fo x obtain y where y: "read n h x = Some y" by blast
    from "6.IH"(2)[OF x y] rk fo ks obtain kts where "read_dict n h d ks = Some kts" by auto
    with x y show "\<exists>kts. read_dict n h d (k # ks) = Some kts" by simp
  qed
qed auto

lemma load_Mapping:
  "load h (Mapping kns) = (h', v) \<Longrightarrow> \<exists>a d. v = VRef a \<and> a < length h' \<and> h' ! a = ODict d"
  by (auto simp: alloc_def split: prod.splits)

lemma load_two_dicts:
  assumes l0: "load [] (Mapping kt) = (h0, t)" and l1: "load h0 (Mapping kl) = (h1, l)"
    and N: "N = max (height (Mapping kt)) (height (Mapping kl))"
  shows "\<exists>lv ta la. ranked lv N h1 \<and> t = VRef ta \<and> l = VRef la \<and> is_dict h1 t \<and> is_dict h1 l
      \<and> lv ta = 0 \<and> lv la = 0"
proof -
  from load_pc(1)[of "[]" "Mapping kt" h0 t "\<lambda>a. 0" N 0] l0 obtain lv0 where
    a0: "loaded (\<lambda>a. 0) N [] lv0 h0" and b0: "\<And>b. t = VRef b \<Longrightarrow> b < length h0 \<and> lv0 b = 0"
    by (auto simp: ranked_empty N)
  from a0 have rk0: "ranked lv0 N h0" by (simp add: loaded_def)
  from load_pc(1)[of h0 "Mapping kl" h1 l lv0 N 0] l1 rk0 obtain lv1 where
    a1: "loaded lv0 N h0 lv1 h1" and b1: "\<And>b. l = VRef b \<Longrightarrow> b < length h1 \<and> lv1 b = 0"
    by (auto simp: N)
  from load_Mapping[OF l0] obtain ta dt where t: "t = VRef ta" "ta < length h0" "h0 ! ta = ODict dt"
    by blast
  from load_Mapping[OF l1] obtain la dl where l: "l = VRef la" "la < length h1" "h1 ! la = ODict dl"
    by blast
  from a1 t have t1: "ta < length h1" "h1 ! ta = ODict dt" "lv1 ta = lv0 ta"
    by (auto simp: loaded_def)
  from t1 t l b0[OF t(1)] b1[OF l(1)] a1 show ?thesis
    by (intro exI[of _ lv1] exI[of _ ta] exI[of _ la]) (auto simp: loaded_def is_dict_iff)
qed

text \<open>
  C8. The merge of two documents that are mappings returns a document, with no error,
  once the bound on the depth of calls exceeds by two the nesting depth of the deeper of
  the two; the entries may be of any kind, also of different kinds under one key.
\<close>

theorem merge_total:
  assumes "max (height (Mapping kt)) (height (Mapping kl)) + 2 \<le> n"
  shows "\<exists>t. Merge n (Mapping kt) (Mapping kl) = Inr (Some t)"
proof -
  define N where "N = max (height (Mapping kt)) (height (Mapping kl))"
  obtain h0 tv where l0: "load [] (Mapping kt) = (h0, tv)" by (cases "load [] (Mapping kt)")
  obtain h1 lv where l1: "load h0 (Mapping kl) = (h1, lv)" by (cases "load h0 (Mapping kl)")
  from load_two_dicts[OF l0 l1 N_def] obtain lvl ta la where
    rk: "ranked lvl N h1" and t: "tv = VRef ta" and l: "lv = VRef la"
    and dt: "is_dict h1 tv" and dl: "is_dict h1 lv" and z: "lvl ta = 0" "lvl la = 0"
    by blast
  from assms have n: "N + 2 \<le> n" by (simp add: N_def)
  have "\<exists>r. merge_settings n h1 tv lv = Inr r"
    by (rule merge_settings_total[OF rk dt dl]) (use t l z n in auto)
  then obtain h2 mv where ms: "merge_settings n h1 tv lv = Inr (h2, mv)" by auto
  have "ms_post lvl N h1 tv h2 mv"
    by (rule merge_settings_pc[OF ms rk]) (use t l z in auto)
  then obtain lv' m where m: "mv = VRef m" "m < length h2" "lv' m = 0" and rk2: "ranked lv' N h2"
    using t z by (auto simp: ms_post_def ext_def)
  have "fuel_ok lv' N h2 n mv" using m n by (simp add: fuel_ok_def)
  with read_total(1)[of lv' N h2 n mv] rk2 m obtain r where "read n h2 mv = Some r" by auto
  with l0 l1 ms show ?thesis by (simp add: Merge_def merge_run_def)
qed

text \<open>An instance with a dict against a list, a list against a number, and two dicts.\<close>

theorem merge_total_witness:
  "max (height (Mapping [(''a'', Mapping [(''b'', Num 1)]), (''c'', Seq [Num 1]), (''d'', Mapping [(''e'', Null)])]))
       (height (Mapping [(''a'', Seq [Str ''s'']), (''c'', Num 3), (''d'', Mapping [(''f'', Seq [])])])) + 2 \<le> (1000 :: nat)
   \<and> (\<exists>t. Merge 1000 (Mapping [(''a'', Mapping [(''b'', Num 1)]), (''c'', Seq [Num 1]), (''d'', Mapping [(''e'', Null)])])
                      (Mapping [(''a'', Seq [Str ''s'']), (''c'', Num 3), (''d'', Mapping [(''f'', Seq [])])])
             = Inr (Some t))"
proof -
  have a: "max (height (Mapping [(''a'', Mapping [(''b'', Num 1)]), (''c'', Seq [Num 1]), (''d'', Mapping [(''e'', Null)])]))
       (height (Mapping [(''a'', Seq [Str ''s'']), (''c'', Num 3), (''d'', Mapping [(''f'', Seq [])])])) + 2 \<le> (1000 :: nat)"
    by simp
  from merge_total[OF a] a show ?thesis by blast
qed

subsection \<open>A flagged key and the plain key in one dict\<close>

lemma dict_set_same: "map_of D k = Some x \<Longrightarrow> dict_set k x D = D"
  by (induction D) (auto split: if_splits)

lemma set_item_same:
  "a < length h \<Longrightarrow> h ! a = ODict D \<Longrightarrow> map_of D k = Some x \<Longrightarrow> set_item h a k x = h"
  by (metis set_item_dict dict_set_same list_update_id)

lemma strip_keys_dict:
  "strip_keys n h a ks = Inr h' \<Longrightarrow> ranked lv N h \<Longrightarrow> a < length h \<Longrightarrow> h ! a = ODict D \<Longrightarrow>
     h' ! a = ODict (fold rename_key ks D) \<and> ranked lv N h' \<and> length h' = length h"
proof (induction ks arbitrary: h D)
  case Nil
  then show ?case by simp
next
  case (Cons key0 ks)
  note run = Cons.prems(1) and rk = Cons.prems(2) and a = Cons.prems(3,4)
  have gd: "get_dict h (VRef a) = Some D" using a by (simp add: get_dict_Some)
  show ?case
  proof (cases "map_of D key0")
    case None
    with run gd have "strip_keys n h a ks = Inr h'" by (simp add: dict_has_def)
    from Cons.IH[OF this rk a] None show ?thesis by (simp add: rename_key_def)
  next
    case (Some entry)
    define key where "key = (if flagged key0 then drop 1 key0 else key0)"
    define h1 where "h1 = (if flagged key0 then del_item (set_item h a key entry) a key0 else h)"
    define D1 where "D1 = rename_key key0 D"
    have D1: "D1 = (if flagged key0 then dict_del key0 (dict_set (drop 1 key0) entry D) else D)"
      by (simp add: D1_def rename_key_def Some)
    have h1a: "h1 ! a = ODict D1" and len1: "length h1 = length h"
      using rename_step(1)[OF a Some] a by (auto simp: h1_def D1 key_def)
    have sub1: "sub h h1" by (rule pre_step(1)[OF a Some key_def h1_def])
    have rk1: "ranked lv N h1" by (rule ranked_sub[OF rk sub1])
    have a1: "a < length h1" using a len1 by simp
    have m1: "map_of D1 key = Some entry"
      using Some flagged_drop[of key0] by (auto simp: D1 key_def)
    have ch: "entry \<in> children (h ! a)" using a Some by (auto simp: children_def ran_def)
    have lv_e: "b < length h \<and> lv b = Suc (lv a)" if "entry = VRef b" for b
      using ranked_child[OF rk a(1), of b] ch that by simp
    have step: "\<exists>h2. strip_keys n h2 a ks = Inr h' \<and> ranked lv N h2 \<and> length h2 = length h
         \<and> h2 ! a = ODict D1"
    proof (cases "is_dict h1 entry")
      case True
      with run gd Some obtain h2 where s: "strip_flags n h1 entry = Inr h2"
        and r: "strip_keys n (set_item (set_item h2 a key entry) a key entry) a ks = Inr h'"
        by (auto simp: dict_has_def Let_def key_def[symmetric] h1_def[symmetric] split: sum.splits)
      from strip_pc(1)[of n h1 entry h2 lv N "Suc (lv a)"] s rk1 lv_e
      have sub2: "sub h1 h2" and fr: "frame_ex lv (Suc (lv a)) {b. entry = VRef b} h1 h2" by auto
      have "a \<notin> {b. entry = VRef b}" using lv_e by auto
      with fr a1 have h2a: "h2 ! a = ODict D1" by (simp add: frame_ex_def h1a)
      have len2: "length h2 = length h" using sub_length[OF sub2] len1 by simp
      then have a2: "a < length h2" using a by simp
      have "set_item h2 a key entry = h2" by (rule set_item_same[OF a2 h2a m1])
      with r have "strip_keys n h2 a ks = Inr h'" by simp
      with ranked_sub[OF rk1 sub2] len2 h2a show ?thesis by blast
    next
      case False
      note nd = this
      show ?thesis
      proof (cases "is_list h1 entry")
        case True
        then obtain e xs where e: "entry = VRef e" "e < length h1" "h1 ! e = OList xs"
          by (auto simp: is_list_iff)
        then have gl: "get_list h1 entry = Some xs" by (simp add: get_list_Some)
        from run gd Some nd True gl obtain h2 where s: "strip_items n h1 xs = Inr h2"
          and r: "strip_keys n (set_item h2 a key entry) a ks = Inr h'"
          by (auto simp: dict_has_def Let_def key_def[symmetric] h1_def[symmetric] split: sum.splits)
        have lvx: "lv b = Suc (Suc (lv a))" if "VRef b \<in> set xs" for b
          using ranked_child[OF rk1 e(2), of b] that e lv_e by (simp add: children_def)
        from strip_pc(2)[of n h1 xs h2 lv N "Suc (lv a)"] s rk1 lvx
        have sub2: "sub h1 h2" and fr: "frame_ex lv (Suc (lv a)) {b. VRef b \<in> set xs} h1 h2" by auto
        have "a \<notin> {b. VRef b \<in> set xs}" using lvx[of a] by auto
        with fr a1 have h2a: "h2 ! a = ODict D1" by (simp add: frame_ex_def h1a)
        have len2: "length h2 = length h" using sub_length[OF sub2] len1 by simp
        then have a2: "a < length h2" using a by simp
        have "set_item h2 a key entry = h2" by (rule set_item_same[OF a2 h2a m1])
        with r have "strip_keys n h2 a ks = Inr h'" by simp
        with ranked_sub[OF rk1 sub2] len2 h2a show ?thesis by blast
      next
        case False
        with run gd Some nd have r: "strip_keys n (set_item h1 a key entry) a ks = Inr h'"
          by (auto simp: dict_has_def Let_def key_def[symmetric] h1_def[symmetric])
        have "set_item h1 a key entry = h1" by (rule set_item_same[OF a1 h1a m1])
        with r rk1 len1 h1a show ?thesis by auto
      qed
    qed
    then obtain h2 where "strip_keys n h2 a ks = Inr h'" "ranked lv N h2" "length h2 = length h"
      "h2 ! a = ODict D1" by blast
    from Cons.IH[OF this(1,2) _ this(4)] this(3) a show ?thesis by (simp add: D1_def)
  qed
qed

lemma rename_key_map:
  "map_of (rename_key key0 D) =
     (case map_of D key0 of
        None \<Rightarrow> map_of D
      | Some x \<Rightarrow> if flagged key0 then ((map_of D)(drop 1 key0 \<mapsto> x))(key0 := None) else map_of D)"
  by (simp add: rename_key_def split: option.splits)

lemma fold_rename_clobbers:
  assumes f: "flagged fk" and p: "\<not> flagged (drop 1 fk)"
  shows "(\<forall>key0 \<in> set ks. flagged key0 \<longrightarrow> drop 1 key0 \<noteq> fk \<and> (drop 1 key0 = drop 1 fk \<longrightarrow> key0 = fk)) \<Longrightarrow>
     (map_of D fk = Some v \<and> fk \<in> set ks) \<or> (map_of D fk = None \<and> map_of D (drop 1 fk) = Some v) \<Longrightarrow>
     map_of (fold rename_key ks D) fk = None \<and> map_of (fold rename_key ks D) (drop 1 fk) = Some v"
proof (induction ks arbitrary: D)
  case Nil
  then show ?case by simp
next
  case (Cons key0 ks)
  have ne: "drop 1 fk \<noteq> fk" using f by (rule flagged_drop)
  from Cons.prems(1) have c0: "flagged key0 \<Longrightarrow> drop 1 key0 \<noteq> fk"
    and c1: "flagged key0 \<Longrightarrow> drop 1 key0 = drop 1 fk \<Longrightarrow> key0 = fk"
    and rest: "\<forall>key0 \<in> set ks. flagged key0 \<longrightarrow> drop 1 key0 \<noteq> fk \<and> (drop 1 key0 = drop 1 fk \<longrightarrow> key0 = fk)"
    by auto
  have "(map_of (rename_key key0 D) fk = Some v \<and> fk \<in> set ks)
        \<or> (map_of (rename_key key0 D) fk = None \<and> map_of (rename_key key0 D) (drop 1 fk) = Some v)"
  proof (cases "map_of D key0")
    case None
    then have "rename_key key0 D = D" by (simp add: rename_key_def)
    with Cons.prems(2) None show ?thesis by auto
  next
    case (Some x)
    show ?thesis
    proof (cases "flagged key0")
      case False
      then have "rename_key key0 D = D" by (simp add: rename_key_def Some)
      with Cons.prems(2) False f show ?thesis by auto
    next
      case True
      have m: "map_of (rename_key key0 D) = ((map_of D)(drop 1 key0 \<mapsto> x))(key0 := None)"
        by (simp add: rename_key_map Some True)
      show ?thesis
      proof (cases "key0 = fk")
        case True
        with Some Cons.prems(2) have "x = v" by auto
        with m True have m': "map_of (rename_key key0 D) = ((map_of D)(drop 1 fk \<mapsto> v))(fk := None)"
          by simp
        show ?thesis unfolding m' using ne by simp
      next
        case False
        from c0[OF True] have a: "drop 1 key0 \<noteq> fk" .
        from c1[OF True] False have b: "drop 1 key0 \<noteq> drop 1 fk" by auto
        from True p have c: "key0 \<noteq> drop 1 fk" by auto
        from Cons.prems(2) False a b c show ?thesis by (auto simp: m)
      qed
    qed
  qed
  from Cons.IH[OF rest this] show ?case by simp
qed

lemma strip_dict_total:
  assumes rk: "ranked lv N h" and a: "a < length h" "h ! a = ODict d"
    and fu: "0 < n" "N + 1 \<le> n + lv a"
  shows "\<exists>h'. strip_flags n h (VRef a) = Inr h'
      \<and> h' ! a = ODict (fold rename_key (map fst d) d) \<and> ranked lv N h' \<and> length h' = length h"
proof -
  from strip_total(1)[of lv N h n "VRef a"] rk fu obtain h' where s: "strip_flags n h (VRef a) = Inr h'"
    by auto
  from fu obtain n' where n: "n = Suc n'" by (cases n) auto
  have "\<not> is_list h (VRef a)" "is_dict h (VRef a)" "get_dict h (VRef a) = Some d"
    using a by (auto simp: is_list_iff is_dict_iff get_dict_Some)
  with s n have "strip_keys n' h a (map fst d) = Inr h'" by simp
  from strip_keys_dict[OF this rk a] s show ?thesis by blast
qed

text \<open>
  C10, as amended. When a dict holds a key \<open>fk\<close> that starts with a flag, and no other
  key of the dict becomes \<open>fk\<close> or the plain key \<open>drop 1 fk\<close> when its first character is
  dropped, \<^verbatim>\<open>_strip_flags\<close> leaves the dict with the entry of \<open>fk\<close> under the plain key
  and without the key \<open>fk\<close>, whatever the plain key held before. In particular the merge
  of a local dict \<^verbatim>\<open>{"+k": v}\<close> over a template dict \<^verbatim>\<open>{"k": w}\<close> returns a new dict
  whose only entry is \<^verbatim>\<open>k\<close>, and it holds the value the local dict held under \<^verbatim>\<open>+k\<close>:
  the same object, when \<open>v\<close> is a dict or a list, with the flags of its own keys stripped
  in place.
\<close>

theorem flagged_spelling_replaces_plain_key:
  assumes "ranked lv N h"
  shows "(a < length h \<and> h ! a = ODict d \<and> flagged fk \<and> \<not> flagged (drop 1 fk)
          \<and> map_of d fk = Some v
          \<and> (\<forall>key0 \<in> fst ` set d. flagged key0 \<longrightarrow>
                drop 1 key0 \<noteq> fk \<and> (drop 1 key0 = drop 1 fk \<longrightarrow> key0 = fk))
          \<and> 0 < n \<and> N + 1 \<le> n + lv a
        \<longrightarrow> (\<exists>h' d'. strip_flags n h (VRef a) = Inr h' \<and> h' ! a = ODict d'
               \<and> map_of d' (drop 1 fk) = Some v \<and> map_of d' fk = None))
     \<and> (ta < length h \<and> la < length h \<and> lv la = lv ta
          \<and> h ! ta = ODict [(k, w)] \<and> h ! la = ODict [(''+'' @ k, v)] \<and> \<not> flagged k
          \<and> N + 2 \<le> n + lv ta
        \<longrightarrow> (\<exists>h'. merge_settings n h (VRef ta) (VRef la) = Inr (h', VRef (length h))
               \<and> h' ! length h = ODict [(k, v)]))"
proof (intro conjI impI)
  assume A: "a < length h \<and> h ! a = ODict d \<and> flagged fk \<and> \<not> flagged (drop 1 fk)
          \<and> map_of d fk = Some v
          \<and> (\<forall>key0 \<in> fst ` set d. flagged key0 \<longrightarrow>
                drop 1 key0 \<noteq> fk \<and> (drop 1 key0 = drop 1 fk \<longrightarrow> key0 = fk))
          \<and> 0 < n \<and> N + 1 \<le> n + lv a"
  then have a: "a < length h" "h ! a = ODict d" and f: "flagged fk" "\<not> flagged (drop 1 fk)"
    and e: "map_of d fk = Some v" and fu: "0 < n" "N + 1 \<le> n + lv a"
    and c: "\<forall>key0 \<in> set (map fst d). flagged key0 \<longrightarrow>
                drop 1 key0 \<noteq> fk \<and> (drop 1 key0 = drop 1 fk \<longrightarrow> key0 = fk)"
    by auto
  from e have "fk \<in> set (map fst d)" by (metis fst_conv imageI map_of_SomeD set_map)
  with e have "(map_of d fk = Some v \<and> fk \<in> set (map fst d))
      \<or> (map_of d fk = None \<and> map_of d (drop 1 fk) = Some v)" by simp
  from fold_rename_clobbers[OF f c this] strip_dict_total[OF assms a fu]
  show "\<exists>h' d'. strip_flags n h (VRef a) = Inr h' \<and> h' ! a = ODict d'
               \<and> map_of d' (drop 1 fk) = Some v \<and> map_of d' fk = None"
    by blast
next
  assume B: "ta < length h \<and> la < length h \<and> lv la = lv ta
          \<and> h ! ta = ODict [(k, w)] \<and> h ! la = ODict [(''+'' @ k, v)] \<and> \<not> flagged k
          \<and> N + 2 \<le> n + lv ta"
  then have t: "ta < length h" "h ! ta = ODict [(k, w)]" and l: "la < length h" "h ! la = ODict [(''+'' @ k, v)]"
    and lvs: "lv la = lv ta" and nf: "\<not> flagged k" and fu: "N + 2 \<le> n + lv ta"
    by auto
  from assms t have lN: "lv ta \<le> N" by (simp add: ranked_def)
  with fu obtain n' where n: "n = Suc n'" and n': "0 < n'" "N + 1 \<le> n' + lv ta" by (cases n) auto
  define m where "m = length h"
  define h1 where "h1 = h @ [ODict [(k, w)]]"
  define h2 where "h2 = h1[m := ODict [(k, w), (''+'' @ k, v)]]"
  define lv1 where "lv1 = lv(m := lv ta)"
  have pk: "''+'' @ k \<noteq> k" by simp
  have chw: "b < length h \<and> lv b = Suc (lv ta)" if "w = VRef b" for b
    using ranked_child[OF assms t(1), of b] t(2) that by (simp add: children_def ran_def)
  have chv: "b < length h \<and> lv b = Suc (lv ta)" if "v = VRef b" for b
    using ranked_child[OF assms l(1), of b] l(2) that lvs by (simp add: children_def ran_def)
  have rk1: "ranked lv1 N h1"
    unfolding lv1_def h1_def m_def
    by (rule ranked_alloc[OF assms lN]) (use chw in \<open>auto simp: children_def ran_def split: if_splits\<close>)
  have m1: "m < length h1" by (simp add: h1_def m_def)
  have rk2: "ranked lv1 N h2"
    unfolding h2_def
  proof (rule ranked_update[OF rk1 m1])
    fix b assume "VRef b \<in> children (ODict [(k, w), (''+'' @ k, v)])"
    then have "w = VRef b \<or> v = VRef b" by (auto simp: children_def ran_def split: if_splits)
    with chw chv show "b < length h1 \<and> lv1 b = Suc (lv1 m)"
      by (auto simp: h1_def lv1_def m_def)
  qed
  have h2m: "m < length h2" "h2 ! m = ODict [(k, w), (''+'' @ k, v)]"
    using m1 by (simp_all add: h2_def)
  have "0 < n'" "N + 1 \<le> n' + lv1 m" using n' by (simp_all add: lv1_def)
  from strip_dict_total[OF rk2 h2m this] obtain h3 where
    s: "strip_flags n' h2 (VRef m) = Inr h3"
    and r: "h3 ! m = ODict (fold rename_key (map fst [(k, w), (''+'' @ k, v)]) [(k, w), (''+'' @ k, v)])"
    by blast
  have fl: "flagged (''+'' @ k)" by (simp add: flagged_def startswith_def)
  have "fold rename_key (map fst [(k, w), (''+'' @ k, v)]) [(k, w), (''+'' @ k, v)] = [(k, v)]"
    using nf fl by (simp add: rename_key_def)
  with r have r': "h3 ! m = ODict [(k, v)]" by simp
  have ik: "is_key_in [(k, w)] (CHR ''+'' # k) = (False, [])"
    by (simp add: is_key_in_def dict_has_def)
  have gt: "get_dict h1 (VRef ta) = Some [(k, w)]" and gl: "get_dict h1 (VRef la) = Some [(''+'' @ k, v)]"
    using t l by (simp_all add: get_dict_Some h1_def nth_append)
  have "merge_key n' h1 (VRef ta) (VRef la) m (''+'' @ k) = Inr (set_item h1 m (''+'' @ k) v)"
    unfolding merge_key.simps Let_def gl gt option.sel by (simp add: ik startswith_def)
  moreover have "set_item h1 m (''+'' @ k) v = h2"
    by (simp add: set_item_def get_obj_def h2_def h1_def m_def)
  ultimately have mk: "merge_key n' h1 (VRef ta) (VRef la) m (''+'' @ k) = Inr h2" by simp
  have gth: "get_dict h (VRef ta) = Some [(k, w)]" and glh: "get_dict h (VRef la) = Some [(''+'' @ k, v)]"
    using t l by (simp_all add: get_dict_Some)
  have "merge_settings n h (VRef ta) (VRef la) =
      (case merge_keys n' h1 (VRef ta) (VRef la) m (map fst (the (get_dict h1 (VRef la)))) of
         Inl e \<Rightarrow> Inl e
       | Inr h2 \<Rightarrow>
           (case strip_flags n' h2 (VRef m) of
              Inl e \<Rightarrow> Inl e
            | Inr h3 \<Rightarrow> Inr (h3, VRef m)))"
    unfolding n h1_def m_def
    by (simp add: is_dict_def gth glh alloc_def del: merge_key.simps)
  also have "\<dots> = Inr (h3, VRef m)"
    unfolding gl option.sel using mk s by (simp del: merge_key.simps)
  finally have "merge_settings n h (VRef ta) (VRef la) = Inr (h3, VRef m)" .
  with r' show "\<exists>h'. merge_settings n h (VRef ta) (VRef la) = Inr (h', VRef (length h))
               \<and> h' ! length h = ODict [(k, v)]"
    by (auto simp: m_def)
qed

text \<open>
  An instance: a store with the template dict, the local dict, and a dict that holds both
  spellings; the merge of the two documents read back.
\<close>

theorem flagged_spelling_replaces_plain_key_witness:
  "(\<exists>h' d'. strip_flags 1000
        [ODict [(''x'', VInt 1)], ODict [(''+x'', VInt 2)], ODict [(''x'', VInt 1), (''+x'', VInt 2)]]
        (VRef 2) = Inr h'
      \<and> h' ! 2 = ODict d' \<and> map_of d' ''x'' = Some (VInt 2) \<and> map_of d' ''+x'' = None)
   \<and> (\<exists>h'. merge_settings 1000
        [ODict [(''x'', VInt 1)], ODict [(''+x'', VInt 2)], ODict [(''x'', VInt 1), (''+x'', VInt 2)]]
        (VRef 0) (VRef 1) = Inr (h', VRef 3)
      \<and> h' ! 3 = ODict [(''x'', VInt 2)])
   \<and> Merge 1000 (Mapping [(''x'', Num 1)]) (Mapping [(''+x'', Num 2)])
       = Inr (Some (Mapping [(''x'', Num 2)]))"
proof -
  let ?h = "[ODict [(''x'', VInt 1)], ODict [(''+x'', VInt 2)], ODict [(''x'', VInt 1), (''+x'', VInt 2)]]"
  have rk: "ranked (\<lambda>a. 0) 0 ?h"
    by (auto simp: ranked_def children_def ran_def less_Suc_eq numeral_3_eq_3 split: if_splits)
  have fl: "flagged ''+x''" "\<not> flagged ''x''" by (simp_all add: flagged_def startswith_def)
  have m: "Merge 1000 (Mapping [(''x'', Num 1)]) (Mapping [(''+x'', Num 2)])
       = Inr (Some (Mapping [(''x'', Num 2)]))"
    by code_simp
  from flagged_spelling_replaces_plain_key[OF rk, of 2 "[(''x'', VInt 1), (''+x'', VInt 2)]"
      "''+x''" "VInt 2" 1000 0 1 "''x''" "VInt 1"] fl m
  show ?thesis by (simp add: numeral_3_eq_3)
qed

text \<open>
  C10 as stated fails when the value of the flagged key has flagged keys of its own: the
  merge of \<^verbatim>\<open>{"+x": {"+a": 1}}\<close> over \<^verbatim>\<open>{"x": 1}\<close> is \<^verbatim>\<open>{"x": {"a": 1}}\<close>, the value with
  its flags stripped. And with both flagged spellings of a key the later one is stored
  last: \<^verbatim>\<open>{"+k": 1, "!k": 2, "k": 0}\<close> merged with the empty document is \<^verbatim>\<open>{"k": 2}\<close>.
\<close>

theorem flagged_value_is_stripped_too:
  "Merge 1000 (Mapping [(''x'', Num 1)]) (Mapping [(''+x'', Mapping [(''+a'', Num 1)])])
      = Inr (Some (Mapping [(''x'', Mapping [(''a'', Num 1)])]))
   \<and> Mapping [(''x'', Mapping [(''a'', Num 1)])] \<noteq> Mapping [(''x'', Mapping [(''+a'', Num 1)])]
   \<and> Merge 1000 (Mapping [(''+k'', Num 1), (''!k'', Num 2), (''k'', Num 0)]) (Mapping [])
      = Inr (Some (Mapping [(''k'', Num 2)]))"
  by code_simp

subsection \<open>The augmented sequence\<close>
















end
